theory Spec2Isabelle
  imports Complex_Main
begin

section \<open>Notification reconciler of \<open>notification-bell.tsx\<close>\<close>

text \<open>
  The component \<open>NotificationBell\<close> keeps three pieces of state that matter here:
  the React state \<open>allNotifications\<close> (the reconciled list), the ref
  \<open>sentEmailsRef\<close> (a \<open>Set<string>\<close> of identities whose mail document was
  written) and, outside the component, the \<open>mail\<close> collection that
  \<open>addDocumentNonBlocking\<close> is called on. They are modelled by explicit state
  passing.
\<close>

subsection \<open>Data model\<close>

datatype NotificationType =
    new_bid
  | gig_hired
  | project_chat
  | direct_message
  | delivery_approved
  | project_disputed
  | new_report
  | new_contact_submission
  | review_request
  | new_delivery
  | project_completed
  | direct_booking_request
  | direct_booking_approved
  | direct_booking_declined
  | dispute_resolved

text \<open>
  JavaScript numbers are IEEE 754 binary64 values, and every arithmetic operation
  rounds its exact result to the nearest such value, a tie going to the even
  significand. A finite double is a rational, so the rounding is a function on
  \<open>rat\<close>: \<open>toDouble x\<close> is the multiple of \<open>ulp \<bar>x\<bar>\<close> nearest to \<open>x\<close>, where
  \<open>ulp a\<close> is the power of two with \<open>2^52 * ulp a \<le> a < 2^53 * ulp a\<close>. The exponent
  is not bounded: overflow to infinity and subnormal numbers are not modelled, and
  none occurs for the numbers of a \<open>Timestamp\<close> (see \<open>validTimestamp\<close>).
\<close>

text \<open>Round to the nearest integer, a tie to the even one.\<close>

definition rne :: "rat \<Rightarrow> int" where
  "rne x = (let f = \<lfloor>x\<rfloor>; d = x - of_int f in
            if d < 1 / 2 then f else if 1 / 2 < d then f + 1 else if even f then f else f + 1)"

text \<open>
  The binary exponent of a positive number: for \<open>1 \<le> x\<close> the \<open>e\<close> with
  \<open>2^e \<le> x < 2^(e+1)\<close>, for \<open>0 < x < 1\<close> the \<open>k\<close> with \<open>2^(-k) \<le> x < 2^(1-k)\<close>.
\<close>

function expo_ge1 :: "rat \<Rightarrow> nat" where
  "expo_ge1 x = (if x < 2 then 0 else Suc (expo_ge1 (x / 2)))"
  by pat_completeness auto
termination
proof (relation "measure (\<lambda>x. nat \<lfloor>x\<rfloor>)")
  show "wf (measure (\<lambda>x::rat. nat \<lfloor>x\<rfloor>))" by simp
next
  fix x :: rat assume "\<not> x < 2"
  then have "\<lfloor>x / 2\<rfloor> < \<lfloor>x\<rfloor>" by linarith
  moreover have "0 < \<lfloor>x\<rfloor>" using \<open>\<not> x < 2\<close> by linarith
  ultimately show "(x / 2, x) \<in> measure (\<lambda>x. nat \<lfloor>x\<rfloor>)" by simp
qed

function expo_lt1 :: "rat \<Rightarrow> nat" where
  "expo_lt1 x = (if x \<le> 0 \<or> 1 \<le> x then 0 else Suc (expo_lt1 (2 * x)))"
  by pat_completeness auto
termination
proof (relation "measure (\<lambda>x. nat \<lfloor>1 / x\<rfloor>)")
  show "wf (measure (\<lambda>x::rat. nat \<lfloor>1 / x\<rfloor>))" by simp
next
  fix x :: rat assume a: "\<not> (x \<le> 0 \<or> 1 \<le> x)"
  then have x: "0 < x" "x < 1" by auto
  define y where "y = 1 / x"
  have y: "1 < y" using x by (simp add: y_def)
  then have p: "0 < \<lfloor>y\<rfloor>" by linarith
  have "y / 2 < of_int \<lfloor>y\<rfloor>" using y p by linarith
  then have k: "\<lfloor>y / 2\<rfloor> < \<lfloor>y\<rfloor>" by (simp add: floor_less_iff)
  have e: "1 / (2 * x) = y / 2" by (simp add: y_def)
  have "\<lfloor>1 / (2 * x)\<rfloor> < \<lfloor>1 / x\<rfloor>" unfolding e using k unfolding y_def .
  moreover have "0 < \<lfloor>1 / x\<rfloor>" using p unfolding y_def .
  ultimately show "(2 * x, x) \<in> measure (\<lambda>x. nat \<lfloor>1 / x\<rfloor>)" by simp
qed

declare expo_ge1.simps [simp del] expo_lt1.simps [simp del]

text \<open>The unit in the last place of a positive number with a significand of 53 bits.\<close>

definition ulp :: "rat \<Rightarrow> rat" where
  "ulp a = (if 1 \<le> a then 2 ^ expo_ge1 a / 2 ^ 52 else 1 / (2 ^ expo_lt1 a * 2 ^ 52))"

definition toDouble :: "rat \<Rightarrow> rat" where
  "toDouble x = (if x = 0 then 0 else sgn x * of_int (rne (\<bar>x\<bar> / ulp \<bar>x\<bar>)) * ulp \<bar>x\<bar>)"

text \<open>
  A Firestore \<open>Timestamp\<close> has whole seconds and nanoseconds. Its constructor
  refuses seconds outside the years 1 to 9999 and nanoseconds outside \<open>0..<10^9\<close>:
  \<open>validTimestamp\<close>. \<open>exactMillis\<close> is the instant in milliseconds, exactly.
  \<open>toMillis()\<close> is \<open>this.seconds * 1000 + this.nanoseconds / 1e6\<close> in double
  arithmetic: a product, a quotient and a sum, each rounded.
\<close>

record Timestamp =
  seconds :: int
  nanoseconds :: int

definition validTimestamp :: "Timestamp \<Rightarrow> bool" where
  "validTimestamp t = (- 62135596800 \<le> seconds t \<and> seconds t < 253402300800
     \<and> 0 \<le> nanoseconds t \<and> nanoseconds t < 1000000000)"

definition exactMillis :: "Timestamp \<Rightarrow> rat" where
  "exactMillis t = of_int (seconds t) * 1000 + of_int (nanoseconds t) / 1000000"

definition toMillis :: "Timestamp \<Rightarrow> rat" where
  "toMillis t =
     toDouble (toDouble (of_int (seconds t) * 1000) + toDouble (of_int (nanoseconds t) / 1000000))"

text \<open>
  \<open>Omit<Notification, 'isRead'>\<close> is the record \<open>Candidate\<close>; \<open>Notification\<close>
  extends it with \<open>isRead\<close>. The field \<open>id\<close> is named \<open>notif_id\<close> and the field
  \<open>type\<close> is named \<open>notif_type\<close>. An optional field is an \<open>option\<close>.
\<close>

record Candidate =
  notif_id :: string
  notif_type :: NotificationType
  message :: string
  link :: string
  timestamp :: Timestamp
  recipientEmail :: "string option"
  recipientName :: "string option"

record Notification = Candidate +
  isRead :: bool

text \<open>\<open>{ ...n, isRead: b }\<close> and the upcast of a \<open>Notification\<close> to the map's value type.\<close>

definition withIsRead :: "bool \<Rightarrow> Candidate \<Rightarrow> Notification" where
  "withIsRead b c = Candidate.extend c (Notification.fields b)"

definition omitIsRead :: "Notification \<Rightarrow> Candidate" where
  "omitIsRead n = Candidate.truncate n"

text \<open>JavaScript truthiness of an optional string: present and not empty.\<close>

fun truthy :: "string option \<Rightarrow> bool" where
  "truthy None = False"
| "truthy (Some s) = (s \<noteq> [])"

text \<open>\<open>x || d\<close> on an optional string.\<close>

fun or_else :: "string option \<Rightarrow> string \<Rightarrow> string" where
  "or_else None d = d"
| "or_else (Some s) d = (if s = [] then d else s)"

subsection \<open>The JavaScript \<open>Map\<close>\<close>

text \<open>
  A \<open>Map<string, _>\<close> iterates in insertion order, and \<open>set\<close> on a key that is
  present replaces the value where it stands. It is an association list with
  distinct keys, the oldest key first.
\<close>

type_synonym NotifsMap = "(string \<times> Candidate) list"

fun map_has :: "string \<Rightarrow> NotifsMap \<Rightarrow> bool" where
  "map_has k [] = False"
| "map_has k ((k', v) # m) = (if k' = k then True else map_has k m)"

fun map_set :: "string \<Rightarrow> Candidate \<Rightarrow> NotifsMap \<Rightarrow> NotifsMap" where
  "map_set k v [] = [(k, v)]"
| "map_set k v ((k', v') # m) = (if k' = k then (k, v) # m else (k', v') # map_set k v m)"

definition map_values :: "NotifsMap \<Rightarrow> Candidate list" where
  "map_values m = map snd m"

subsection \<open>State and the mail side channel\<close>

record MailData =
  mail_to :: "string list"
  subject :: string
  html :: string

definition nl :: string where
  "nl = [CHR 0x0A]"

definition dq :: string where
  "dq = [CHR 0x22]"

definition indent16 :: string where
  "indent16 = replicate 16 CHR '' ''"

definition mailData :: "Notification \<Rightarrow> MailData" where
  "mailData n = \<lparr>
     mail_to = (case recipientEmail n of None \<Rightarrow> [] | Some e \<Rightarrow> [e]),
     subject = ''New Notification: '' @ take 50 (message n) @ ''...'',
     html = nl
       @ indent16 @ ''<p>Hello '' @ or_else (recipientName n) ''there'' @ '',</p>'' @ nl
       @ indent16 @ ''<p>You have a new notification on AltMe:</p>'' @ nl
       @ indent16 @ ''<p><strong>'' @ message n @ ''</strong></p>'' @ nl
       @ indent16 @ ''<p><a href='' @ dq @ ''https://altme.fyi'' @ link n @ dq @ ''>Click here to view it</a></p>'' @ nl
       @ indent16 @ ''<p>Thank you,</p>'' @ nl
       @ indent16 @ ''<p>The AltMe Team</p>'' @ nl
       @ replicate 12 CHR '' '' \<rparr>"

text \<open>
  \<open>mailData\<close> is built only past the guard of \<open>sendEmailNotification\<close>, where
  \<open>recipientEmail\<close> is present, so \<open>to\<close> has the one address.

  \<open>outbox\<close> lists the calls of \<open>addDocumentNonBlocking(collection(firestore, 'mail'), _)\<close>
  in the order they were made, each tagged with the identity of the notification it
  was made for (the tag is not part of the document; it only lets theorems
  count requests per identity).
\<close>

record State =
  allNotifications :: "Notification list"
  sentEmails :: "string set"
  outbox :: "(string \<times> MailData) list"

definition initial :: State where
  "initial = \<lparr> allNotifications = [], sentEmails = {}, outbox = [] \<rparr>"

text \<open>
  \<open>sendEmailNotification\<close> is \<open>async\<close>: the guard, the construction of the
  document and the call of \<open>addDocumentNonBlocking\<close> run at once; what follows the
  \<open>await\<close> runs later, when the write has settled. The first part is
  \<open>sendEmailNotification\<close>; the second is \<open>sendEmailSettled\<close>, with \<open>ok\<close> telling
  whether the awaited promise was fulfilled (then the identity is recorded) or
  rejected (then the \<open>catch\<close> only logs). \<open>fs\<close> says that \<open>firestore\<close> is not null.
\<close>

definition sendEmailNotification :: "bool \<Rightarrow> Notification \<Rightarrow> State \<Rightarrow> State" where
  "sendEmailNotification fs n s =
     (if \<not> fs \<or> \<not> truthy (recipientEmail n) \<or> notif_id n \<in> sentEmails s then s
      else s\<lparr> outbox := outbox s @ [(notif_id n, mailData n)] \<rparr>)"

definition sendEmailSettled :: "string \<Rightarrow> bool \<Rightarrow> State \<Rightarrow> State" where
  "sendEmailSettled k ok s =
     (if ok \<and> k \<in> fst ` set (outbox s) then s\<lparr> sentEmails := insert k (sentEmails s) \<rparr> else s)"

subsection \<open>\<open>mergeNotifications\<close>\<close>

text \<open>\<open>prevNotifs.forEach(n => notifsMap.set(n.id, n))\<close> on the empty map.\<close>

definition seed :: "Notification list \<Rightarrow> NotifsMap" where
  "seed prevNotifs = fold (\<lambda>n m. map_set (notif_id n) (omitIsRead n) m) prevNotifs []"

text \<open>The body of \<open>newNotifs.forEach\<close>, threading the map and the state.\<close>

fun forEachNew :: "bool \<Rightarrow> string set \<Rightarrow> Candidate list \<Rightarrow> NotifsMap \<Rightarrow> State \<Rightarrow> NotifsMap \<times> State" where
  "forEachNew fs readIds [] m s = (m, s)"
| "forEachNew fs readIds (newNotif # rest) m s =
     (let isNew = \<not> map_has (notif_id newNotif) m;
          m' = map_set (notif_id newNotif) newNotif m;
          s' = (if isNew \<and> notif_id newNotif \<notin> readIds
                then sendEmailNotification fs (withIsRead False newNotif) s else s)
      in forEachNew fs readIds rest m' s')"

text \<open>
  The comparator given to \<open>sort\<close>:
  \<open>(a, b) => b.timestamp.toMillis() - a.timestamp.toMillis()\<close>, a difference of
  doubles, rounded.
\<close>

definition compareFn :: "Notification \<Rightarrow> Notification \<Rightarrow> rat" where
  "compareFn a b = toDouble (toMillis (timestamp b) - toMillis (timestamp a))"

text \<open>
  \<open>Array.prototype.sort\<close> is stable. The comparator is negative when \<open>a\<close> has the
  larger \<open>toMillis\<close>, zero when the two are equal and positive otherwise (lemma
  \<open>compareFn_sign\<close>), so it orders by descending \<open>toMillis\<close>: the result is the
  stable sort by descending \<open>toMillis\<close>, which \<open>sort_key\<close> on the negated key
  computes.
\<close>

definition sortDesc :: "Notification list \<Rightarrow> Notification list" where
  "sortDesc ns = sort_key (\<lambda>n. - toMillis (timestamp n)) ns"

definition annotate :: "string set \<Rightarrow> Candidate \<Rightarrow> Notification" where
  "annotate readIds n = withIsRead (notif_id n \<in> readIds) n"

definition mergeNotifications :: "bool \<Rightarrow> Candidate list \<Rightarrow> string set \<Rightarrow> State \<Rightarrow> State" where
  "mergeNotifications fs newNotifs readIds s =
     (case forEachNew fs readIds newNotifs (seed (allNotifications s)) s of
        (notifsMap, s') \<Rightarrow>
          s'\<lparr> allNotifications := sortDesc (map (annotate readIds) (map_values notifsMap)) \<rparr>)"

text \<open>\<open>unreadCount\<close>: \<open>allNotifications.filter(n => !n.isRead).length\<close>.\<close>

definition unreadCount :: "State \<Rightarrow> nat" where
  "unreadCount s = length (filter (\<lambda>n. \<not> isRead n) (allNotifications s))"

text \<open>
  A session is a sequence of events on the single-threaded event loop: a merge pass
  (one run of the updater given to \<open>setAllNotifications\<close>) or the settling of one
  awaited mail write.
\<close>

datatype Event =
    MergePass "Candidate list" "string set"
  | Settled string bool

fun step :: "bool \<Rightarrow> Event \<Rightarrow> State \<Rightarrow> State" where
  "step fs (MergePass newNotifs readIds) s = mergeNotifications fs newNotifs readIds s"
| "step fs (Settled k ok) s = sendEmailSettled k ok s"

definition run :: "bool \<Rightarrow> Event list \<Rightarrow> State \<Rightarrow> State" where
  "run fs evs s = fold (step fs) evs s"

subsection \<open>Candidate producers\<close>

text \<open>
  An integer counter as a template literal prints it: its decimal digits, with a
  minus sign when negative. This is what JavaScript prints for an integer that a
  double holds exactly (up to \<open>2^53\<close> in magnitude); beyond that the number is
  rounded, and from \<open>10^21\<close> on printed in exponent form, neither of which is
  modelled. The counters of the documents are taken to be integers in that range.
\<close>

definition digit :: "nat \<Rightarrow> char" where
  "digit d = ''0123456789'' ! d"

function string_of_nat :: "nat \<Rightarrow> string" where
  "string_of_nat n = (if n < 10 then [digit n] else string_of_nat (n div 10) @ [digit (n mod 10)])"
  by pat_completeness auto
termination
  by (relation "measure id") auto

declare string_of_nat.simps [simp del]

definition numString :: "int \<Rightarrow> string" where
  "numString i = (if i < 0 then ''-'' @ string_of_nat (nat (- i)) else string_of_nat (nat i))"

text \<open>
  \<open>if (x && x > 0) push(f(x))\<close> on an optional counter \<open>x\<close>: the candidate made
  from the counter when it is present and positive.
\<close>

fun whenPositive :: "int option \<Rightarrow> (int \<Rightarrow> Candidate) \<Rightarrow> Candidate list" where
  "whenPositive None f = []"
| "whenPositive (Some n) f = (if 0 < n then [f n] else [])"

text \<open>An optional string inside a template literal: \<open>undefined\<close> prints as such.\<close>

fun tmpl :: "string option \<Rightarrow> string" where
  "tmpl None = ''undefined''"
| "tmpl (Some s) = s"

text \<open>
  The types \<open>User\<close> and \<open>ProjectRequest\<close> are declared in \<open>@/lib/types\<close>; the
  records have the fields that \<open>notification-bell.tsx\<close> reads.
\<close>

record User =
  role :: string
  name :: "string option"
  email :: "string option"
  readNotificationIds :: "string list option"
  openReportsCount :: "int option"
  unreadContactSubmissionsCount :: "int option"
  disputedProjectsCount :: "int option"
  unreadGigsCount :: "int option"
  pendingReviewCount :: "int option"

text \<open>
  The data of a document of \<open>requests\<close>. \<open>data_id\<close> is the field \<open>id\<close> of the
  data, when the document stores one.
\<close>

record RequestData =
  data_id :: "string option"
  userId :: string
  title :: string
  status :: string
  hiredPhotographerId :: "string option"
  unreadBidsCount :: "int option"
  clientHasReviewed :: bool
  photographerHasReviewed :: bool
  photographerRespondedAt :: "Timestamp option"
  createdAt :: Timestamp
  disputeResolvedAt :: "Timestamp option"
  disputeResolution :: "string option"

record QueryDoc =
  doc_id :: string
  doc_data :: RequestData

text \<open>\<open>{ id: doc.id, ...doc.data() }\<close>: an \<open>id\<close> stored in the data overrides \<open>doc.id\<close>.\<close>

definition request_id :: "QueryDoc \<Rightarrow> string" where
  "request_id d = (case data_id (doc_data d) of Some i \<Rightarrow> i | None \<Rightarrow> doc_id d)"

text \<open>
  The outcome of \<open>getDocs(newGigQuery)\<close>: the first document of the snapshot, an
  empty snapshot, or a rejected promise.
\<close>

datatype GigLookup = GigFound QueryDoc | GigEmpty | GigFailed

definition adminEmail :: string where
  "adminEmail = ''ayn.eee.11@gmail.com''"

text \<open>
  The candidates that the listener of the user document pushes, in order.
  \<open>now\<close> is the value of \<open>Timestamp.now()\<close>. Of the document that the lookup
  finds, the code reads \<open>gigSnap.docs[0].data()\<close> only: \<open>gig.id\<close> is the field \<open>id\<close>
  of the data, not \<open>doc.id\<close>.
\<close>

definition gigsFallback :: "string \<Rightarrow> User \<Rightarrow> Timestamp \<Rightarrow> Candidate" where
  "gigsFallback uid u now =
     \<lparr> notif_id = ''gigs-'' @ uid, notif_type = gig_hired, message = ''You have 1 new gig!'',
       link = ''/requests'', timestamp = now, recipientEmail = email u, recipientName = name u \<rparr>"

definition userDocCandidates :: "string \<Rightarrow> User \<Rightarrow> GigLookup \<Rightarrow> Timestamp \<Rightarrow> Candidate list" where
  "userDocCandidates uid u lookup now =
     (if role u = ''admin'' then
        whenPositive (openReportsCount u) (\<lambda>n.
           \<lparr> notif_id = ''reports-'' @ uid, notif_type = new_report,
             message = ''There are '' @ numString n @ '' open user reports to review.'',
             link = ''/admin/reports'', timestamp = now,
             recipientEmail = Some adminEmail, recipientName = name u \<rparr>)
        @ whenPositive (unreadContactSubmissionsCount u) (\<lambda>n.
           \<lparr> notif_id = ''contact-'' @ uid, notif_type = new_contact_submission,
             message = ''You have '' @ numString n @ '' new contact submission(s).'',
             link = ''/admin/inbox'', timestamp = now,
             recipientEmail = Some adminEmail, recipientName = name u \<rparr>)
        @ whenPositive (disputedProjectsCount u) (\<lambda>n.
           \<lparr> notif_id = ''disputes-'' @ uid, notif_type = project_disputed,
             message = ''There are '' @ numString n @ '' disputed projects requiring review.'',
             link = ''/admin/projects'', timestamp = now,
             recipientEmail = Some adminEmail, recipientName = name u \<rparr>)
      else
        (let unreadGigs = (case unreadGigsCount u of None \<Rightarrow> 0 | Some n \<Rightarrow> n) in
         if 0 < unreadGigs then
           (if unreadGigs = 1 then
              (case lookup of
                 GigFound gigDoc \<Rightarrow>
                   (let gig = doc_data gigDoc in
                    [\<lparr> notif_id = ''gig-'' @ tmpl (data_id gig), notif_type = gig_hired,
                       message = ''You've been hired for '' @ dq @ title gig @ dq @ ''!'',
                       link = ''/requests/'' @ tmpl (data_id gig), timestamp = now,
                       recipientEmail = email u, recipientName = name u \<rparr>])
               | GigEmpty \<Rightarrow> [gigsFallback uid u now]
               | GigFailed \<Rightarrow> [gigsFallback uid u now])
            else
              [\<lparr> notif_id = ''gigs-'' @ uid, notif_type = gig_hired,
                 message = ''You have '' @ numString unreadGigs @ '' new gigs!'',
                 link = ''/requests'', timestamp = now,
                 recipientEmail = email u, recipientName = name u \<rparr>])
         else [])
        @ whenPositive (pendingReviewCount u) (\<lambda>n.
           \<lparr> notif_id = ''review-multi-'' @ uid, notif_type = review_request,
             message = ''You have '' @ numString n @ '' project(s) to review.'',
             link = ''/requests'', timestamp = now,
             recipientEmail = email u, recipientName = name u \<rparr>))"

text \<open>
  The listener of the user document: nothing when the document does not exist,
  else one merge pass with the read identities of the document.
\<close>

definition userDocSnapshot :: "bool \<Rightarrow> string \<Rightarrow> User option \<Rightarrow> GigLookup \<Rightarrow> Timestamp \<Rightarrow> State \<Rightarrow> State" where
  "userDocSnapshot fs uid doc lookup now s =
     (case doc of
        None \<Rightarrow> s
      | Some u \<Rightarrow>
          mergeNotifications fs (userDocCandidates uid u lookup now)
            (set (case readNotificationIds u of None \<Rightarrow> [] | Some ids \<Rightarrow> ids)) s)"

text \<open>
  The body of \<open>snapshot.docs.forEach\<close> in \<open>processProjectSnapshot\<close>: the candidates
  pushed for one document, in order. \<open>userData\<close> is the React state of that name as
  the closure holds it (\<open>null\<close> until the user document has arrived), so
  \<open>userData?.email\<close> may be undefined.
\<close>

definition requestCandidate ::
  "User option \<Rightarrow> string \<Rightarrow> NotificationType \<Rightarrow> string \<Rightarrow> string \<Rightarrow> Timestamp \<Rightarrow> Candidate" where
  "requestCandidate userData i ty msg lnk ts =
     \<lparr> notif_id = i, notif_type = ty, message = msg, link = lnk, timestamp = ts,
       recipientEmail = Option.bind userData email, recipientName = Option.bind userData name \<rparr>"

definition requestNotifications :: "string \<Rightarrow> User option \<Rightarrow> Timestamp \<Rightarrow> QueryDoc \<Rightarrow> Candidate list" where
  "requestNotifications uid userData now d =
     (let r = doc_data d; rid = request_id d; quoted = dq @ title r @ dq in
      (if userId r = uid then
         whenPositive (unreadBidsCount r) (\<lambda>n.
            requestCandidate userData (''bid-'' @ rid) new_bid
              (numString n @ '' new bid(s) on '' @ quoted) (''/requests/'' @ rid) now)
         @ (if status r = ''Delivered'' \<and> \<not> clientHasReviewed r then
              [requestCandidate userData (''delivery-'' @ rid) new_delivery
                 (''Files have been delivered for '' @ quoted) (''/requests/'' @ rid) now]
            else [])
         @ (case photographerRespondedAt r of
              None \<Rightarrow> []
            | Some respondedAt \<Rightarrow>
                if status r = ''Pending'' then
                  [requestCandidate userData (''booking-approved-'' @ rid) direct_booking_approved
                     (''Your booking request for '' @ quoted @ '' was approved! Please complete the payment.'')
                     (''/requests/'' @ rid) respondedAt]
                else if status r = ''Disabled'' then
                  [requestCandidate userData (''booking-declined-'' @ rid) direct_booking_declined
                     (''Your booking request for '' @ quoted @ '' was declined.'')
                     ''/requests'' respondedAt]
                else [])
       else [])
      @ (if hiredPhotographerId r = Some uid then
           (if status r = ''Pending'' \<and> photographerRespondedAt r = None then
              [requestCandidate userData (''booking-'' @ rid) direct_booking_request
                 (''New direct booking request for '' @ quoted) (''/requests/'' @ rid) (createdAt r)]
            else [])
           @ (if status r = ''Delivered'' \<and> clientHasReviewed r \<and> \<not> photographerHasReviewed r then
                [requestCandidate userData (''review-'' @ rid) review_request
                   (''The client has left a review for '' @ quoted
                      @ ''. Please leave your review to complete the project.'')
                   (''/requests/'' @ rid) now]
              else [])
         else [])
      @ (if status r = ''Completed'' \<and> \<not> (clientHasReviewed r \<and> photographerHasReviewed r) then
           [requestCandidate userData (''completed-'' @ rid) project_completed
              (''Project '' @ quoted @ '' is complete!'') (''/requests/'' @ rid) now]
         else [])
      @ (case disputeResolvedAt r of
           None \<Rightarrow> []
         | Some resolvedAt \<Rightarrow>
             [requestCandidate userData (''dispute-res-'' @ rid) dispute_resolved
                (if disputeResolution r = Some ''refunded''
                 then ''Dispute for '' @ quoted @ '': The client has been refunded.''
                 else if disputeResolution r = Some ''paid''
                 then ''Dispute for '' @ quoted @ '': The photographer has been paid.''
                 else ''Dispute for '' @ quoted @ '' has been resolved.'')
                (''/requests/'' @ rid) resolvedAt]))"

definition projectCandidates :: "string \<Rightarrow> User option \<Rightarrow> Timestamp \<Rightarrow> QueryDoc list \<Rightarrow> Candidate list" where
  "projectCandidates uid userData now docs = concat (map (requestNotifications uid userData now) docs)"

definition processProjectSnapshot ::
  "bool \<Rightarrow> string \<Rightarrow> User option \<Rightarrow> Timestamp \<Rightarrow> QueryDoc list \<Rightarrow> string set \<Rightarrow> State \<Rightarrow> State" where
  "processProjectSnapshot fs uid userData now docs readIds s =
     mergeNotifications fs (projectCandidates uid userData now docs) readIds s"

text \<open>
  \<open>handleMarkAsRead\<close>. \<open>user\<close> is the uid of the signed-in user, if any. The result
  lists the calls of \<open>updateDocumentNonBlocking\<close>: the user document written and the
  arguments of \<open>arrayUnion\<close>.
\<close>

datatype Write = ArrayUnionReadIds string "string list"

definition handleMarkAsRead :: "string option \<Rightarrow> bool \<Rightarrow> Notification list \<Rightarrow> Write list" where
  "handleMarkAsRead user fs ns =
     (case user of
        None \<Rightarrow> []
      | Some uid \<Rightarrow>
          if \<not> fs \<or> ns = [] then []
          else (let unreadIds = map notif_id (filter (\<lambda>n. \<not> isRead n) ns) in
                if unreadIds = [] then [] else [ArrayUnionReadIds uid unreadIds]))"

text \<open>
  Firestore's \<open>arrayUnion\<close> adds to the stored array the elements that it lacks; on
  the read state as a set, the write is a union.
\<close>

fun applyWrite :: "Write \<Rightarrow> string set \<Rightarrow> string set" where
  "applyWrite (ArrayUnionReadIds uid ids) readState = readState \<union> set ids"

subsection \<open>Auxiliary notions for the proofs\<close>

text \<open>
  The mapping of the merge contract, as the specification words it: a map from
  identity to candidate, seeded from the existing list and then overwritten by each
  new candidate in turn.
\<close>

definition spec_mapping :: "Notification list \<Rightarrow> Candidate list \<Rightarrow> (string \<rightharpoonup> Candidate)" where
  "spec_mapping existing newCandidates =
     fold (\<lambda>c f. f(notif_id c \<mapsto> c)) newCandidates
       (fold (\<lambda>n f. f(notif_id n \<mapsto> omitIsRead n)) existing Map.empty)"

text \<open>A map whose keys are distinct and are the identities of their values.\<close>

definition keyed :: "NotifsMap \<Rightarrow> bool" where
  "keyed m = (distinct (map fst m) \<and> map fst m = map (notif_id \<circ> snd) m)"

definition setAll :: "Candidate list \<Rightarrow> NotifsMap \<Rightarrow> NotifsMap" where
  "setAll cs m = fold (\<lambda>c. map_set (notif_id c) c) cs m"

text \<open>\<open>notifsMap\<close> as it stands when the two \<open>forEach\<close> loops are over.\<close>

definition finalMap :: "Notification list \<Rightarrow> Candidate list \<Rightarrow> NotifsMap" where
  "finalMap prev new = setAll new (seed prev)"

text \<open>The identity-keyed view of a reconciled list, and of a batch (the last candidate of an identity wins).\<close>

definition mappingOf :: "Notification list \<Rightarrow> (string \<rightharpoonup> Notification)" where
  "mappingOf ns = map_of (map (\<lambda>n. (notif_id n, n)) ns)"

definition candMap :: "Candidate list \<Rightarrow> (string \<rightharpoonup> Candidate)" where
  "candMap cs = map_of (rev (map (\<lambda>c. (notif_id c, c)) cs))"

text \<open>How many mail documents were requested for an identity.\<close>

definition requestsFor :: "string \<Rightarrow> State \<Rightarrow> nat" where
  "requestsFor x s = length (filter (\<lambda>p. fst p = x) (outbox s))"

text \<open>The \<open>recipientEmail\<close> of the first candidate of a batch that has the identity.\<close>

definition firstEmail :: "string \<Rightarrow> Candidate list \<Rightarrow> string option" where
  "firstEmail x cs = (case find (\<lambda>c. notif_id c = x) cs of None \<Rightarrow> None | Some c \<Rightarrow> recipientEmail c)"

text \<open>
  What one run of \<open>newNotifs.forEach\<close> appends to the outbox, given the keys that
  \<open>notifsMap\<close> holds when the loop starts.
\<close>

fun emitted :: "bool \<Rightarrow> string set \<Rightarrow> Candidate list \<Rightarrow> string set \<Rightarrow> (string \<times> MailData) list" where
  "emitted fs R [] seen = []"
| "emitted fs R (c # cs) seen =
     (if notif_id c \<notin> seen \<and> notif_id c \<notin> R \<and> fs \<and> truthy (recipientEmail c)
      then [(notif_id c, mailData (withIsRead False c))] else [])
     @ emitted fs R cs (insert (notif_id c) seen)"

text \<open>
  What holds of every state of a session: a recorded identity has a request, a
  requested identity is in the list, and no identity has two requests.
\<close>

definition consistent :: "State \<Rightarrow> bool" where
  "consistent s = (sentEmails s \<subseteq> fst ` set (outbox s)
     \<and> fst ` set (outbox s) \<subseteq> notif_id ` set (allNotifications s)
     \<and> distinct (map fst (outbox s)))"

subsection \<open>Sample data\<close>

definition cA :: Candidate where
  "cA = \<lparr> notif_id = ''bid-r1'', notif_type = new_bid, message = ''2 new bid(s)'', link = ''/requests/r1'',
           timestamp = \<lparr> seconds = 100, nanoseconds = 0 \<rparr>,
           recipientEmail = Some ''a@b.c'', recipientName = None \<rparr>"

definition cB :: Candidate where
  "cB = \<lparr> notif_id = ''msg-x'', notif_type = direct_message, message = ''New message from Someone.'',
           link = ''/messages/x'',
           timestamp = \<lparr> seconds = 200, nanoseconds = 5000000 \<rparr>,
           recipientEmail = None, recipientName = None \<rparr>"

definition cC :: Candidate where
  "cC = \<lparr> notif_id = ''gig-p1'', notif_type = gig_hired, message = ''You have 1 new gig!'', link = ''/requests'',
           timestamp = \<lparr> seconds = 100, nanoseconds = 0 \<rparr>,
           recipientEmail = Some ''a@b.c'', recipientName = Some ''Ann'' \<rparr>"

definition cB_mail :: Candidate where
  "cB_mail = cB\<lparr> recipientEmail := Some ''a@b.c'' \<rparr>"

definition u0 :: User where
  "u0 = \<lparr> role = ''photographer'', name = Some ''Ann'', email = Some ''ann@example.org'',
          readNotificationIds = None, openReportsCount = None, unreadContactSubmissionsCount = None,
          disputedProjectsCount = None, unreadGigsCount = Some 1, pendingReviewCount = Some 2 \<rparr>"

definition r0 :: RequestData where
  "r0 = \<lparr> data_id = Some ''p1'', userId = ''client7'', title = ''Sunset Shoot'', status = ''In Progress'',
          hiredPhotographerId = Some ''u1'', unreadBidsCount = None, clientHasReviewed = False,
          photographerHasReviewed = False, photographerRespondedAt = None,
          createdAt = \<lparr> seconds = 50, nanoseconds = 0 \<rparr>,
          disputeResolvedAt = None, disputeResolution = None \<rparr>"

text \<open>
  The document \<open>p1\<close> that the lookup finds: with the field \<open>id\<close> in its data, and
  without it.
\<close>

definition gigDoc1 :: QueryDoc where
  "gigDoc1 = \<lparr> doc_id = ''p1'', doc_data = r0 \<rparr>"

definition gigDoc0 :: QueryDoc where
  "gigDoc0 = \<lparr> doc_id = ''p1'', doc_data = r0\<lparr> data_id := None \<rparr> \<rparr>"

definition d0 :: QueryDoc where
  "d0 = \<lparr> doc_id = ''r1'',
          doc_data = \<lparr> data_id = None, userId = ''u1'', title = ''Wedding'', status = ''Delivered'',
            hiredPhotographerId = Some ''ph9'', unreadBidsCount = Some 2, clientHasReviewed = False,
            photographerHasReviewed = False, photographerRespondedAt = None,
            createdAt = \<lparr> seconds = 50, nanoseconds = 0 \<rparr>,
            disputeResolvedAt = None, disputeResolution = None \<rparr> \<rparr>"

definition t0 :: Timestamp where
  "t0 = \<lparr> seconds = 300, nanoseconds = 0 \<rparr>"

text \<open>Three candidates of one second: \<open>cNew\<close> one nanosecond and \<open>cLater\<close> one millisecond after \<open>cOld\<close>.\<close>

definition cOld :: Candidate where
  "cOld = \<lparr> notif_id = ''msg-old'', notif_type = direct_message, message = ''New message from Ann.'',
             link = ''/messages/old'',
             timestamp = \<lparr> seconds = 1700000000, nanoseconds = 0 \<rparr>,
             recipientEmail = None, recipientName = None \<rparr>"

definition cNew :: Candidate where
  "cNew = \<lparr> notif_id = ''msg-new'', notif_type = direct_message, message = ''New message from Bob.'',
             link = ''/messages/new'',
             timestamp = \<lparr> seconds = 1700000000, nanoseconds = 1 \<rparr>,
             recipientEmail = None, recipientName = None \<rparr>"

definition cLater :: Candidate where
  "cLater = \<lparr> notif_id = ''msg-later'', notif_type = direct_message, message = ''New message from Cy.'',
             link = ''/messages/later'',
             timestamp = \<lparr> seconds = 1700000000, nanoseconds = 1000000 \<rparr>,
             recipientEmail = None, recipientName = None \<rparr>"

section \<open>Properties\<close>

subsection \<open>Double arithmetic\<close>

lemma rne_error: "\<bar>of_int (rne x) - x\<bar> \<le> 1 / 2"
proof -
  define d where "d = x - of_int \<lfloor>x\<rfloor>"
  have d: "0 \<le> d" "d < 1" unfolding d_def by linarith+
  have x: "x = of_int \<lfloor>x\<rfloor> + d" by (simp add: d_def)
  consider "d < 1 / 2" | "1 / 2 < d" | "d = 1 / 2" by linarith
  then show ?thesis
  proof cases
    case 1
    then have "rne x = \<lfloor>x\<rfloor>" by (simp add: rne_def Let_def d_def)
    then show ?thesis using 1 d unfolding d_def by simp
  next
    case 2
    then have "rne x = \<lfloor>x\<rfloor> + 1" by (simp add: rne_def Let_def d_def)
    then show ?thesis using 2 d unfolding d_def by simp
  next
    case 3
    then have "rne x = \<lfloor>x\<rfloor> \<or> rne x = \<lfloor>x\<rfloor> + 1" by (simp add: rne_def Let_def d_def)
    then show ?thesis using 3 unfolding d_def by auto
  qed
qed

lemma rne_int: "rne (of_int n) = n"
  by (simp add: rne_def)

lemma rne_ge: "of_int n \<le> x \<Longrightarrow> n \<le> rne x"
proof -
  assume "of_int n \<le> x"
  then have "n \<le> \<lfloor>x\<rfloor>" by (simp add: le_floor_iff)
  moreover have "\<lfloor>x\<rfloor> \<le> rne x" by (simp add: rne_def Let_def)
  ultimately show ?thesis by simp
qed

lemma rne_le: "x \<le> of_int n \<Longrightarrow> rne x \<le> n"
proof (cases "x = of_int n")
  case True then show ?thesis by (simp add: rne_int)
next
  case False
  assume "x \<le> of_int n"
  with False have "x < of_int n" by simp
  then have "\<lfloor>x\<rfloor> < n" by (simp add: floor_less_iff)
  moreover have "rne x \<le> \<lfloor>x\<rfloor> + 1" by (simp add: rne_def Let_def)
  ultimately show ?thesis by simp
qed

lemma rne_mono: "x \<le> y \<Longrightarrow> rne x \<le> rne y"
proof -
  assume xy: "x \<le> y"
  then have f: "\<lfloor>x\<rfloor> \<le> \<lfloor>y\<rfloor>" by (rule floor_mono)
  show ?thesis
  proof (cases "\<lfloor>x\<rfloor> = \<lfloor>y\<rfloor>")
    case True
    then show ?thesis using xy unfolding rne_def Let_def by auto
  next
    case False
    with f have "\<lfloor>x\<rfloor> + 1 \<le> \<lfloor>y\<rfloor>" by simp
    moreover have "rne x \<le> \<lfloor>x\<rfloor> + 1" by (simp add: rne_def Let_def)
    moreover have "\<lfloor>y\<rfloor> \<le> rne y" by (simp add: rne_def Let_def)
    ultimately show ?thesis by simp
  qed
qed

lemma expo_ge1_bounds: "1 \<le> x \<Longrightarrow> 2 ^ expo_ge1 x \<le> x \<and> x < 2 * 2 ^ expo_ge1 x"
proof (induction x rule: expo_ge1.induct)
  case (1 x)
  show ?case
  proof (cases "x < 2")
    case True
    then show ?thesis using "1.prems" by (simp add: expo_ge1.simps[of x])
  next
    case False
    then have "1 \<le> x / 2" by simp
    from "1.IH"[OF False this] show ?thesis using False by (simp add: expo_ge1.simps[of x])
  qed
qed

lemma expo_lt1_bounds: "0 < x \<Longrightarrow> x < 1 \<Longrightarrow> 1 \<le> x * 2 ^ expo_lt1 x \<and> x * 2 ^ expo_lt1 x < 2"
proof (induction x rule: expo_lt1.induct)
  case (1 x)
  have n: "\<not> (x \<le> 0 \<or> 1 \<le> x)" using "1.prems" by simp
  show ?case
  proof (cases "2 * x < 1")
    case True
    have "0 < 2 * x" using "1.prems" by simp
    from "1.IH"[OF n this True] show ?thesis using n by (simp add: expo_lt1.simps[of x] mult.assoc)
  next
    case False
    then have "expo_lt1 (2 * x) = 0" by (simp add: expo_lt1.simps[of "2 * x"])
    then have "expo_lt1 x = 1" using n by (simp add: expo_lt1.simps[of x])
    then show ?thesis using False "1.prems" by simp
  qed
qed

lemma expo_lt1_pos: "0 < x \<Longrightarrow> x < 1 \<Longrightarrow> 0 < expo_lt1 x"
  by (simp add: expo_lt1.simps[of x])

lemma ulp_pos: "0 < ulp a"
  by (simp add: ulp_def)

lemma ulp_bounds: "0 < a \<Longrightarrow> 2 ^ 52 * ulp a \<le> a \<and> a < 2 ^ 53 * ulp a"
proof (cases "1 \<le> a")
  case True
  then show ?thesis using expo_ge1_bounds[of a] by (simp add: ulp_def)
next
  case False
  assume "0 < a"
  with False have b: "1 \<le> a * 2 ^ expo_lt1 a" "a * 2 ^ expo_lt1 a < 2"
    using expo_lt1_bounds[of a] by simp_all
  define p :: rat where "p = 2 ^ expo_lt1 a"
  have p: "0 < p" by (simp add: p_def)
  have u: "2 ^ 52 * ulp a = 1 / p" "2 ^ 53 * ulp a = 2 / p"
    using False by (simp_all add: ulp_def p_def)
  have "1 / p \<le> a" using b(1) p by (simp add: p_def[symmetric] pos_divide_le_eq)
  moreover have "a < 2 / p" using b(2) p by (simp add: p_def[symmetric] pos_less_divide_eq)
  ultimately show ?thesis by (simp only: u)
qed

lemma ulp_step: "0 < a \<Longrightarrow> a \<le> b \<Longrightarrow> ulp a = ulp b \<or> 2 * ulp a \<le> ulp b"
proof -
  assume a: "0 < a" and ab: "a \<le> b"
  consider "1 \<le> a" | "a < 1" "1 \<le> b" | "b < 1" using ab by linarith
  then show ?thesis
  proof cases
    case 1
    then have b1: "1 \<le> b" using ab by simp
    have "(2::rat) ^ expo_ge1 a \<le> a" using expo_ge1_bounds[OF 1] by simp
    also have "a \<le> b" by (rule ab)
    also have "b < 2 ^ Suc (expo_ge1 b)" using expo_ge1_bounds[OF b1] by simp
    finally have "expo_ge1 a < Suc (expo_ge1 b)" by (simp only: power_strict_increasing_iff[of "2::rat"] semiring_norm)
    then consider "expo_ge1 a = expo_ge1 b" | "Suc (expo_ge1 a) \<le> expo_ge1 b" by linarith
    then show ?thesis
    proof cases
      case 1 then show ?thesis using \<open>1 \<le> a\<close> b1 by (simp add: ulp_def)
    next
      case 2
      then have "(2::rat) ^ Suc (expo_ge1 a) \<le> 2 ^ expo_ge1 b" by (intro power_increasing) simp_all
      then show ?thesis using \<open>1 \<le> a\<close> b1 by (simp add: ulp_def divide_right_mono)
    qed
  next
    case 2
    have k: "0 < expo_lt1 a" using a 2(1) by (rule expo_lt1_pos)
    then have "(2::rat) ^ 1 \<le> 2 ^ expo_lt1 a" by (intro power_increasing) simp_all
    then have "2 * ulp a \<le> 1 / 2 ^ 52" using 2(1) by (simp add: ulp_def field_simps)
    moreover have "(1::rat) / 2 ^ 52 \<le> ulp b" using 2(2) by (simp add: ulp_def divide_right_mono)
    ultimately show ?thesis by simp
  next
    case 3
    then have a1: "a < 1" using ab by simp
    have b0: "0 < b" using a ab by simp
    define p :: rat where "p = 2 ^ expo_lt1 a"
    define q :: rat where "q = 2 ^ expo_lt1 b"
    have pq: "0 < p" "0 < q" by (simp_all add: p_def q_def)
    have "1 \<le> a * p" using expo_lt1_bounds[OF a a1] by (simp add: p_def)
    moreover have "b * q < 2" using expo_lt1_bounds[OF b0 3] by (simp add: q_def)
    moreover have "a * q \<le> b * q" using ab pq by simp
    ultimately have "a * q < 2 * (a * p)" by linarith
    then have "q < 2 * p" using a by (simp add: mult.commute mult.left_commute)
    then have "(2::rat) ^ expo_lt1 b < 2 ^ Suc (expo_lt1 a)" by (simp add: p_def q_def)
    then have "expo_lt1 b < Suc (expo_lt1 a)" by (simp only: power_strict_increasing_iff[of "2::rat"] semiring_norm)
    then consider "expo_lt1 a = expo_lt1 b" | "Suc (expo_lt1 b) \<le> expo_lt1 a" by linarith
    then show ?thesis
    proof cases
      case 1 then show ?thesis using a1 3 by (simp add: ulp_def)
    next
      case 2
      then have "(2::rat) ^ Suc (expo_lt1 b) \<le> 2 ^ expo_lt1 a" by (intro power_increasing) simp_all
      then have "2 * q \<le> p" by (simp add: p_def q_def)
      then have "2 / p \<le> 1 / q" using pq by (simp add: field_simps)
      then have "2 * (1 / (p * 2 ^ 52)) \<le> 1 / (q * 2 ^ 52)" using pq by (simp add: field_simps)
      then show ?thesis using a1 3 by (simp add: ulp_def p_def q_def)
    qed
  qed
qed

lemma toDouble_pos: "0 < x \<Longrightarrow> toDouble x = of_int (rne (x / ulp x)) * ulp x"
  by (simp add: toDouble_def)

lemma toDouble_zero: "toDouble 0 = 0"
  by (simp add: toDouble_def)

lemma toDouble_minus: "toDouble (- x) = - toDouble x"
  by (simp add: toDouble_def)

lemma toDouble_range: "0 < x \<Longrightarrow> 2 ^ 52 * ulp x \<le> toDouble x \<and> toDouble x \<le> 2 ^ 53 * ulp x"
proof -
  assume x: "0 < x"
  have u: "0 < ulp x" by (rule ulp_pos)
  have b: "2 ^ 52 * ulp x \<le> x" "x < 2 ^ 53 * ulp x" using ulp_bounds[OF x] by simp_all
  have "of_int (2 ^ 52) \<le> x / ulp x" using b(1) u by (simp add: pos_le_divide_eq)
  then have 1: "2 ^ 52 \<le> rne (x / ulp x)" by (rule rne_ge)
  have "x / ulp x \<le> of_int (2 ^ 53)" using b(2) u by (simp add: pos_divide_le_eq)
  then have 2: "rne (x / ulp x) \<le> 2 ^ 53" by (rule rne_le)
  have "of_int (2 ^ 52) * ulp x \<le> of_int (rne (x / ulp x)) * ulp x"
    using 1 u by (intro mult_right_mono) simp_all
  moreover have "of_int (rne (x / ulp x)) * ulp x \<le> of_int (2 ^ 53) * ulp x"
    using 2 u by (intro mult_right_mono) simp_all
  ultimately show ?thesis by (simp add: toDouble_pos[OF x])
qed

lemma toDouble_pos_iff: "0 < x \<Longrightarrow> 0 < toDouble x"
proof -
  assume x: "0 < x"
  have "0 < 2 ^ 52 * ulp x" using ulp_pos[of x] by simp
  then show ?thesis using toDouble_range[OF x] by linarith
qed

lemma toDouble_mono_pos: "0 < x \<Longrightarrow> x \<le> y \<Longrightarrow> toDouble x \<le> toDouble y"
proof -
  assume x: "0 < x" and xy: "x \<le> y"
  then have y: "0 < y" by simp
  from ulp_step[OF x xy] show ?thesis
  proof
    assume e: "ulp x = ulp y"
    have "x / ulp y \<le> y / ulp y" using xy ulp_pos[of y] by (simp add: divide_right_mono)
    then have "rne (x / ulp y) \<le> rne (y / ulp y)" by (rule rne_mono)
    then have "of_int (rne (x / ulp y)) * ulp y \<le> of_int (rne (y / ulp y)) * ulp y"
      using ulp_pos[of y] by (intro mult_right_mono) simp_all
    then show ?thesis by (simp add: toDouble_pos[OF x] toDouble_pos[OF y] e)
  next
    assume s: "2 * ulp x \<le> ulp y"
    have "toDouble x \<le> 2 ^ 53 * ulp x" using toDouble_range[OF x] by simp
    also have "\<dots> = 2 ^ 52 * (2 * ulp x)" by simp
    also have "\<dots> \<le> 2 ^ 52 * ulp y" using s by (intro mult_left_mono) simp_all
    also have "\<dots> \<le> toDouble y" using toDouble_range[OF y] by simp
    finally show ?thesis .
  qed
qed

lemma toDouble_mono: "x \<le> y \<Longrightarrow> toDouble x \<le> toDouble y"
proof -
  assume xy: "x \<le> y"
  consider "0 < x" | "x = 0" "y = 0" | "x = 0" "0 < y" | "x < 0" "0 \<le> y" | "x < 0" "y < 0"
    using xy by linarith
  then show ?thesis
  proof cases
    case 1 then show ?thesis using xy by (rule toDouble_mono_pos)
  next
    case 2 then show ?thesis by simp
  next
    case 3 then show ?thesis using toDouble_pos_iff[of y] by (simp add: toDouble_zero)
  next
    case 4
    have "0 < toDouble (- x)" using 4(1) by (intro toDouble_pos_iff) simp
    then have "toDouble x < 0" using toDouble_minus[of x] by simp
    moreover have "0 \<le> toDouble y"
      using 4(2) toDouble_pos_iff[of y] by (cases "y = 0") (simp_all add: toDouble_zero less_imp_le)
    ultimately show ?thesis by simp
  next
    case 5
    have "toDouble (- y) \<le> toDouble (- x)" using 5 xy by (intro toDouble_mono_pos) simp_all
    then show ?thesis by (simp add: toDouble_minus)
  qed
qed

lemma toDouble_sign: "(toDouble x < 0) = (x < 0)" "(toDouble x = 0) = (x = 0)"
proof -
  have p: "0 < toDouble z" if "0 < z" for z using that by (rule toDouble_pos_iff)
  have n: "toDouble z < 0" if "z < 0" for z
    using p[of "- z"] that by (simp add: toDouble_minus)
  consider "x < 0" | "x = 0" | "0 < x" by linarith
  then show "(toDouble x < 0) = (x < 0)"
  proof cases
    case 1 then show ?thesis using n[of x] by simp
  next
    case 2 then show ?thesis by (simp add: toDouble_zero)
  next
    case 3 then show ?thesis using p[of x] by simp
  qed
  consider "x < 0" | "x = 0" | "0 < x" by linarith
  then show "(toDouble x = 0) = (x = 0)"
  proof cases
    case 1 then show ?thesis using n[of x] by simp
  next
    case 2 then show ?thesis by (simp add: toDouble_zero)
  next
    case 3 then show ?thesis using p[of x] by simp
  qed
qed

lemma toDouble_error: "\<bar>toDouble x - x\<bar> \<le> ulp \<bar>x\<bar> / 2"
proof (cases "x = 0")
  case True then show ?thesis using ulp_pos[of 0] by (simp add: toDouble_zero less_imp_le)
next
  case False
  define a where "a = \<bar>x\<bar>"
  have a: "0 < a" using False by (simp add: a_def)
  have u: "0 < ulp a" by (rule ulp_pos)
  have "\<bar>toDouble a - a\<bar> = \<bar>of_int (rne (a / ulp a)) - a / ulp a\<bar> * ulp a"
  proof -
    have "toDouble a - a = (of_int (rne (a / ulp a)) - a / ulp a) * ulp a"
      using u by (simp add: toDouble_pos[OF a] field_simps)
    then show ?thesis using u by (simp add: abs_mult)
  qed
  also have "\<dots> \<le> (1 / 2) * ulp a"
    using rne_error[of "a / ulp a"] u by (intro mult_right_mono) simp_all
  finally have e: "\<bar>toDouble a - a\<bar> \<le> ulp a / 2" by simp
  show ?thesis
  proof (cases "0 < x")
    case True then show ?thesis using e by (simp add: a_def)
  next
    case False
    then have xa: "x = - a" using \<open>x \<noteq> 0\<close> by (simp add: a_def)
    have "\<bar>toDouble x - x\<bar> = \<bar>toDouble a - a\<bar>"
      unfolding xa toDouble_minus by (simp add: abs_minus_commute)
    then show ?thesis using e by (simp add: a_def)
  qed
qed

lemma toDouble_nat_exact:
  assumes "0 < n" "n < 2 ^ 53"
  shows "toDouble (of_int n) = of_int n"
proof -
  define a :: rat where "a = of_int n"
  have a1: "1 \<le> a" using assms(1) by (simp add: a_def)
  have a0: "0 < a" using a1 by simp
  define e where "e = expo_ge1 a"
  have "(2::rat) ^ e \<le> a" using expo_ge1_bounds[OF a1] by (simp add: e_def)
  also have "a < 2 ^ 53" using assms(2) unfolding a_def
    by (metis of_int_less_iff of_int_numeral of_int_power)
  finally have "e < 53" by (simp only: power_strict_increasing_iff[of "2::rat"] semiring_norm)
  then have "52 = e + (52 - e)" by simp
  then obtain d where d: "52 = e + d" ..
  have u: "ulp a = 1 / 2 ^ d"
  proof -
    have p: "(2::rat) ^ 52 = 2 ^ e * 2 ^ d" by (simp only: d power_add)
    have "ulp a = 2 ^ e / 2 ^ 52" using a1 by (simp only: ulp_def e_def if_True)
    also have "\<dots> = 2 ^ e / (2 ^ e * 2 ^ d)" by (simp only: p)
    also have "\<dots> = 1 / 2 ^ d" by simp
    finally show ?thesis .
  qed
  have "a / ulp a = a * 2 ^ d" by (simp only: u) simp
  then have q: "a / ulp a = of_int (n * 2 ^ d)" by (simp add: a_def)
  have "toDouble a = of_int (rne (a / ulp a)) * ulp a" using a0 by (rule toDouble_pos)
  also have "\<dots> = of_int (n * 2 ^ d) * ulp a" by (simp only: q rne_int)
  also have "\<dots> = of_int (n * 2 ^ d) * (1 / 2 ^ d)" by (simp only: u)
  also have "\<dots> = a" by (simp add: a_def)
  finally show ?thesis by (simp add: a_def)
qed

lemma toDouble_int_exact:
  assumes "\<bar>n\<bar> < 2 ^ 53"
  shows "toDouble (of_int n) = of_int n"
proof -
  consider "0 < n" | "n = 0" | "n < 0" by linarith
  then show ?thesis
  proof cases
    case 1 then show ?thesis using assms by (intro toDouble_nat_exact) simp_all
  next
    case 2 then show ?thesis by (simp add: toDouble_zero)
  next
    case 3
    then have "toDouble (of_int (- n)) = of_int (- n)" using assms by (intro toDouble_nat_exact) simp_all
    then show ?thesis using toDouble_minus[of "of_int n"] by simp
  qed
qed

lemma ulp_below:
  assumes "0 < a" "a < 2 ^ m"
  shows "ulp a \<le> 2 ^ m / 2 ^ 53"
proof (cases "1 \<le> a")
  case True
  have "(2::rat) ^ expo_ge1 a \<le> a" using expo_ge1_bounds[OF True] by simp
  also have "a < 2 ^ m" by (rule assms(2))
  finally have "expo_ge1 a < m" by (simp only: power_strict_increasing_iff[of "2::rat"] semiring_norm)
  then have "(2::rat) ^ Suc (expo_ge1 a) \<le> 2 ^ m" by (intro power_increasing) simp_all
  then show ?thesis using True by (simp add: ulp_def field_simps)
next
  case False
  then have a1: "a < 1" by simp
  have "0 < expo_lt1 a" using assms(1) a1 by (rule expo_lt1_pos)
  then have "(2::rat) ^ 1 \<le> 2 ^ expo_lt1 a" by (intro power_increasing) simp_all
  then have "ulp a \<le> 1 / 2 ^ 53" using False by (simp add: ulp_def field_simps)
  also have "\<dots> \<le> 2 ^ m / 2 ^ 53" by (simp add: divide_right_mono)
  finally show ?thesis .
qed

lemma toDouble_near:
  assumes "\<bar>x\<bar> < 2 ^ m"
  shows "\<bar>toDouble x - x\<bar> \<le> 2 ^ m / 2 ^ 54"
proof (cases "x = 0")
  case True then show ?thesis by (simp add: toDouble_zero)
next
  case False
  then have "ulp \<bar>x\<bar> \<le> 2 ^ m / 2 ^ 53" using assms by (intro ulp_below) simp_all
  then show ?thesis using toDouble_error[of x] by simp
qed

lemma valid_parts:
  assumes "validTimestamp t"
  shows "toDouble (of_int (seconds t) * 1000) = of_int (seconds t) * 1000"
    and "0 \<le> toDouble (of_int (nanoseconds t) / 1000000)"
    and "toDouble (of_int (nanoseconds t) / 1000000) \<le> 1000"
    and "\<bar>toDouble (of_int (nanoseconds t) / 1000000) - of_int (nanoseconds t) / 1000000\<bar> \<le> 2 ^ 10 / 2 ^ 54"
    and "\<bar>of_int (seconds t) * 1000 :: rat\<bar> \<le> 253402300800000"
proof -
  have s: "- 62135596800 \<le> seconds t" "seconds t < 253402300800"
    and n: "0 \<le> nanoseconds t" "nanoseconds t < 1000000000"
    using assms by (simp_all add: validTimestamp_def)
  have "\<bar>seconds t * 1000\<bar> < 2 ^ 53" using s by simp
  then have "toDouble (of_int (seconds t * 1000)) = of_int (seconds t * 1000)"
    by (rule toDouble_int_exact)
  then show "toDouble (of_int (seconds t) * 1000) = of_int (seconds t) * 1000" by simp
  have q0: "(0::rat) \<le> of_int (nanoseconds t) / 1000000" using n by simp
  have q1: "of_int (nanoseconds t) / 1000000 \<le> (1000::rat)" using n by simp
  have "toDouble 0 \<le> toDouble (of_int (nanoseconds t) / 1000000)" using q0 by (rule toDouble_mono)
  then show "0 \<le> toDouble (of_int (nanoseconds t) / 1000000)" by (simp add: toDouble_zero)
  have "toDouble (of_int (nanoseconds t) / 1000000) \<le> toDouble (of_int 1000)"
    using q1 by (intro toDouble_mono) simp
  also have "toDouble (of_int 1000) = of_int 1000" by (rule toDouble_int_exact) simp
  finally show "toDouble (of_int (nanoseconds t) / 1000000) \<le> 1000" by simp
  have "\<bar>of_int (nanoseconds t) / 1000000 :: rat\<bar> < 2 ^ 10" using q0 q1 by simp
  then show "\<bar>toDouble (of_int (nanoseconds t) / 1000000) - of_int (nanoseconds t) / 1000000\<bar> \<le> 2 ^ 10 / 2 ^ 54"
    by (rule toDouble_near)
  have "\<bar>seconds t * 1000\<bar> \<le> 253402300800000" using s by simp
  then have "\<bar>of_int (seconds t * 1000) :: rat\<bar> \<le> of_int 253402300800000"
    by (simp only: of_int_abs[symmetric] of_int_le_iff)
  then show "\<bar>of_int (seconds t) * 1000 :: rat\<bar> \<le> 253402300800000" by simp
qed

lemma toMillis_mono:
  assumes "validTimestamp t1" "validTimestamp t2" "exactMillis t1 \<le> exactMillis t2"
  shows "toMillis t1 \<le> toMillis t2"
proof -
  define p1 q1 p2 q2 where "p1 = toDouble (of_int (seconds t1) * 1000)"
    and "q1 = toDouble (of_int (nanoseconds t1) / 1000000)"
    and "p2 = toDouble (of_int (seconds t2) * 1000)"
    and "q2 = toDouble (of_int (nanoseconds t2) / 1000000)"
  have n1: "0 \<le> nanoseconds t1" "nanoseconds t1 < 1000000000"
    and n2: "0 \<le> nanoseconds t2" "nanoseconds t2 < 1000000000"
    using assms(1,2) by (simp_all add: validTimestamp_def)
  have p1: "p1 = of_int (seconds t1) * 1000" and p2: "p2 = of_int (seconds t2) * 1000"
    unfolding p1_def p2_def using assms(1,2) by (simp_all add: valid_parts(1))
  have q: "0 \<le> q1" "q1 \<le> 1000" "0 \<le> q2" "q2 \<le> 1000"
    unfolding q1_def q2_def using assms(1,2) by (simp_all add: valid_parts(2,3))
  have "p1 + q1 \<le> p2 + q2"
  proof -
    consider "seconds t1 < seconds t2" | "seconds t1 = seconds t2" | "seconds t2 < seconds t1" by linarith
    then show ?thesis
    proof cases
      case 1
      then have "seconds t1 + 1 \<le> seconds t2" by simp
      then have "(of_int (seconds t1) + 1 :: rat) \<le> of_int (seconds t2)"
        by (metis of_int_1 of_int_add of_int_le_iff)
      then show ?thesis using q by (simp add: p1 p2)
    next
      case 2
      then have "(of_int (nanoseconds t1) :: rat) / 1000000 \<le> of_int (nanoseconds t2) / 1000000"
        using assms(3) by (simp add: exactMillis_def)
      then have "q1 \<le> q2" unfolding q1_def q2_def by (rule toDouble_mono)
      then show ?thesis using 2 by (simp add: p1 p2)
    next
      case 3
      then have "seconds t2 + 1 \<le> seconds t1" by simp
      then have "(of_int (seconds t2) + 1 :: rat) \<le> of_int (seconds t1)"
        by (metis of_int_1 of_int_add of_int_le_iff)
      moreover have "(of_int (nanoseconds t2) :: rat) / 1000000 < 1000" using n2 by simp
      moreover have "(0::rat) \<le> of_int (nanoseconds t1) / 1000000" using n1 by simp
      ultimately have "exactMillis t2 < exactMillis t1" by (simp add: exactMillis_def)
      then show ?thesis using assms(3) by simp
    qed
  qed
  then have "toDouble (p1 + q1) \<le> toDouble (p2 + q2)" by (rule toDouble_mono)
  then show ?thesis by (simp add: toMillis_def p1_def q1_def p2_def q2_def)
qed

lemma toMillis_near:
  assumes "validTimestamp t"
  shows "\<bar>toMillis t - exactMillis t\<bar> < 1 / 32"
proof -
  define p q where "p = toDouble (of_int (seconds t) * 1000)"
    and "q = toDouble (of_int (nanoseconds t) / 1000000)"
  have p: "p = of_int (seconds t) * 1000" unfolding p_def using assms by (rule valid_parts(1))
  have q: "0 \<le> q" "q \<le> 1000" unfolding q_def using assms by (simp_all add: valid_parts(2,3))
  have qe: "\<bar>q - of_int (nanoseconds t) / 1000000\<bar> \<le> 2 ^ 10 / 2 ^ 54"
    unfolding q_def using assms by (rule valid_parts(4))
  have pb: "\<bar>p\<bar> \<le> 253402300800000" unfolding p using assms by (rule valid_parts(5))
  have "\<bar>p + q\<bar> < 2 ^ 48" using pb q by simp
  then have re: "\<bar>toDouble (p + q) - (p + q)\<bar> \<le> 2 ^ 48 / 2 ^ 54" by (rule toDouble_near)
  have "toMillis t - exactMillis t = (toDouble (p + q) - (p + q)) + (q - of_int (nanoseconds t) / 1000000)"
    by (simp add: toMillis_def exactMillis_def p_def[symmetric] q_def[symmetric]) (simp add: p)
  then have "\<bar>toMillis t - exactMillis t\<bar> \<le> 2 ^ 48 / 2 ^ 54 + 2 ^ 10 / 2 ^ 54"
    using re qe by linarith
  then show ?thesis by simp
qed

lemma toMillis_separates:
  assumes "validTimestamp t1" "validTimestamp t2" "exactMillis t1 + 1 / 16 \<le> exactMillis t2"
  shows "toMillis t1 < toMillis t2"
  using toMillis_near[OF assms(1)] toMillis_near[OF assms(2)] assms(3) by linarith

lemma rne_near: "\<bar>x - of_int m\<bar> < 1 / 2 \<Longrightarrow> rne x = m"
proof -
  assume a: "\<bar>x - of_int m\<bar> < 1 / 2"
  have "\<bar>(of_int (rne x - m) :: rat)\<bar> \<le> \<bar>of_int (rne x) - x\<bar> + \<bar>x - of_int m\<bar>" by simp
  also have "\<dots> < 1" using rne_error[of x] a by linarith
  finally have "\<bar>rne x - m\<bar> < 1" by (simp only: of_int_abs[symmetric] of_int_less_1_iff)
  then show ?thesis by simp
qed

lemma expo_ge1_unique:
  assumes "2 ^ e \<le> x" "x < 2 * 2 ^ e"
  shows "expo_ge1 x = e"
proof -
  have "(1::rat) \<le> 2 ^ e" by simp
  then have x1: "1 \<le> x" using assms(1) by linarith
  have b: "2 ^ expo_ge1 x \<le> x" "x < 2 ^ Suc (expo_ge1 x)" using expo_ge1_bounds[OF x1] by simp_all
  have "(2::rat) ^ e < 2 ^ Suc (expo_ge1 x)" using assms(1) b(2) by linarith
  then have 1: "e < Suc (expo_ge1 x)" by (simp only: power_strict_increasing_iff[of "2::rat"] semiring_norm)
  have "(2::rat) ^ expo_ge1 x < 2 ^ Suc e" using assms(2) b(1) by simp
  then have 2: "expo_ge1 x < Suc e" by (simp only: power_strict_increasing_iff[of "2::rat"] semiring_norm)
  from 1 2 show ?thesis by simp
qed

lemma toDouble_near_grid:
  assumes "2 ^ e \<le> x" "x < 2 * 2 ^ e" "\<bar>x * 2 ^ 52 / 2 ^ e - of_int m\<bar> < 1 / 2"
  shows "toDouble x = of_int m * 2 ^ e / 2 ^ 52"
proof -
  have "(1::rat) \<le> 2 ^ e" by simp
  then have x1: "1 \<le> x" using assms(1) by linarith
  then have x0: "0 < x" by simp
  have u: "ulp x = 2 ^ e / 2 ^ 52" using x1 by (simp add: ulp_def expo_ge1_unique[OF assms(1,2)])
  have "x / ulp x = x * 2 ^ 52 / 2 ^ e" by (simp add: u)
  then have "rne (x / ulp x) = m" using assms(3) by (simp only: rne_near)
  then show ?thesis by (simp add: toDouble_pos[OF x0] u)
qed

lemma toMillis_whole_ms:
  assumes "validTimestamp t" "nanoseconds t = k * 1000000"
  shows "toMillis t = of_int (seconds t * 1000 + k)"
proof -
  have s: "- 62135596800 \<le> seconds t" "seconds t < 253402300800"
    and n: "0 \<le> nanoseconds t" "nanoseconds t < 1000000000"
    using assms(1) by (simp_all add: validTimestamp_def)
  have k: "0 \<le> k" "k < 1000" using n assms(2) by simp_all
  have "of_int (nanoseconds t) / 1000000 = (of_int k :: rat)" by (simp add: assms(2))
  moreover have "toDouble (of_int k) = of_int k" using k by (intro toDouble_int_exact) simp
  ultimately have q: "toDouble (of_int (nanoseconds t) / 1000000) = of_int k" by simp
  have p: "toDouble (of_int (seconds t) * 1000) = of_int (seconds t) * 1000"
    using assms(1) by (rule valid_parts(1))
  have "\<bar>seconds t * 1000 + k\<bar> < 2 ^ 53" using s k by simp
  then have "toDouble (of_int (seconds t * 1000 + k)) = of_int (seconds t * 1000 + k)"
    by (rule toDouble_int_exact)
  then show ?thesis by (simp add: toMillis_def p q)
qed

subsection \<open>Records and the map\<close>

lemma notif_id_withIsRead: "notif_id (withIsRead b c) = notif_id c"
  by (simp add: withIsRead_def Candidate.extend_def)
lemma isRead_withIsRead: "isRead (withIsRead b c) = b"
  by (simp add: withIsRead_def Candidate.extend_def Notification.fields_def)
lemma omit_with: "omitIsRead (withIsRead b c) = c"
  by (simp add: withIsRead_def omitIsRead_def Candidate.extend_def Candidate.truncate_def)
lemma notif_id_omit: "notif_id (omitIsRead n) = notif_id n"
  by (simp add: omitIsRead_def Candidate.truncate_def)
lemma with_omit: "withIsRead (isRead n) (omitIsRead n) = n"
  by (simp add: withIsRead_def omitIsRead_def Candidate.extend_def Candidate.truncate_def Notification.fields_def)
lemma ts_with: "timestamp (withIsRead b c) = timestamp c"
  by (simp add: withIsRead_def Candidate.extend_def)
lemma email_with: "recipientEmail (withIsRead b c) = recipientEmail c"
  by (simp add: withIsRead_def Candidate.extend_def)

lemma map_has_iff: "map_has k m = (k \<in> fst ` set m)"
  by (induction m) auto

lemma map_of_map_set: "map_of (map_set k v m) = (map_of m)(k \<mapsto> v)"
  by (induction m) (auto simp: fun_eq_iff)

lemma keys_map_set: "map fst (map_set k v m) = (if k \<in> fst ` set m then map fst m else map fst m @ [k])"
  by (induction m) (fastforce split: if_splits)+

lemma distinct_map_set: "distinct (map fst m) \<Longrightarrow> distinct (map fst (map_set k v m))"
  by (simp add: keys_map_set)

lemma keyed_Nil: "keyed []" by (simp add: keyed_def)

lemma keyed_map_set: "keyed m \<Longrightarrow> keyed (map_set (notif_id c) c m)"
  unfolding keyed_def
  by (induction m) (auto simp: keys_map_set image_iff split: if_splits)

lemma setAll_Nil: "setAll [] m = m" by (simp add: setAll_def)
lemma setAll_Cons: "setAll (c # cs) m = setAll cs (map_set (notif_id c) c m)" by (simp add: setAll_def)
lemma setAll_append: "setAll (cs @ ds) m = setAll ds (setAll cs m)" by (simp add: setAll_def)

lemma keyed_setAll: "keyed m \<Longrightarrow> keyed (setAll cs m)"
  by (induction cs arbitrary: m) (simp_all add: setAll_Nil setAll_Cons keyed_map_set)

lemma keys_setAll: "fst ` set (setAll cs m) = fst ` set m \<union> notif_id ` set cs"
proof (induction cs arbitrary: m)
  case Nil then show ?case by (simp add: setAll_Nil)
next
  case (Cons c cs)
  have "fst ` set (map_set (notif_id c) c m) = insert (notif_id c) (fst ` set m)"
    using keys_map_set[of "notif_id c" c m] by (metis (no_types, lifting) insert_absorb list.set_map set_append list.simps(15) Un_insert_right sup_bot.right_neutral empty_set)
  then show ?case by (simp add: setAll_Cons Cons)
qed

lemma seed_setAll: "seed prev = setAll (map omitIsRead prev) []"
  by (simp add: seed_def setAll_def fold_map comp_def notif_id_omit)

lemma fst_forEachNew: "fst (forEachNew fs R cs m s) = setAll cs m"
  by (induction cs arbitrary: m s) (simp_all add: setAll_Nil setAll_Cons Let_def)

subsection \<open>The merge pass\<close>

lemma map_of_setAll: "map_of (setAll cs m) = fold (\<lambda>c f. f(notif_id c \<mapsto> c)) cs (map_of m)"
  by (induction cs arbitrary: m) (simp_all add: setAll_Nil setAll_Cons map_of_map_set)

lemma map_of_finalMap: "map_of (finalMap prev new) = spec_mapping prev new"
  by (simp add: finalMap_def spec_mapping_def seed_setAll map_of_setAll fold_map comp_def notif_id_omit)

lemma keyed_finalMap: "keyed (finalMap prev new)"
  by (simp add: finalMap_def seed_setAll keyed_setAll keyed_Nil)

lemma keys_finalMap: "fst ` set (finalMap prev new) = notif_id ` set prev \<union> notif_id ` set new"
  by (simp add: finalMap_def seed_setAll keys_setAll image_image notif_id_omit)

lemma allNotifications_merge:
  "allNotifications (mergeNotifications fs new R s) =
     sortDesc (map (annotate R) (map_values (finalMap (allNotifications s) new)))"
proof -
  obtain m s' where e: "forEachNew fs R new (seed (allNotifications s)) s = (m, s')"
    by (cases "forEachNew fs R new (seed (allNotifications s)) s")
  have "m = finalMap (allNotifications s) new"
    using fst_forEachNew[of fs R new "seed (allNotifications s)" s] e by (simp add: finalMap_def)
  then show ?thesis by (simp add: mergeNotifications_def e)
qed

lemma notif_id_annotate: "notif_id (annotate R c) = notif_id c"
  by (simp add: annotate_def notif_id_withIsRead)
lemma isRead_annotate: "isRead (annotate R c) = (notif_id c \<in> R)"
  by (simp add: annotate_def isRead_withIsRead)
lemma omit_annotate: "omitIsRead (annotate R c) = c"
  by (simp add: annotate_def omit_with)
lemma ts_annotate: "timestamp (annotate R c) = timestamp c"
  by (simp add: annotate_def ts_with)

lemma set_sortDesc: "set (sortDesc ns) = set ns" by (simp add: sortDesc_def)
lemma length_sortDesc: "length (sortDesc ns) = length ns" by (simp add: sortDesc_def)
lemma distinct_sortDesc: "distinct (sortDesc ns) = distinct ns" by (simp add: sortDesc_def)

lemma distinct_ids_sortDesc: "distinct (map notif_id (sortDesc ns)) = distinct (map notif_id ns)"
  by (simp add: distinct_map set_sortDesc distinct_sortDesc)

lemma sorted_sortDesc:
  "sorted_wrt (\<lambda>a b. toMillis (timestamp b) \<le> toMillis (timestamp a)) (sortDesc ns)"
proof -
  have "sorted (map (\<lambda>n. - toMillis (timestamp n)) (sortDesc ns))"
    unfolding sortDesc_def by (rule sorted_sort_key)
  then show ?thesis by (simp add: sorted_map)
qed

lemma compareFn_sign:
  "(compareFn a b < 0) = (toMillis (timestamp b) < toMillis (timestamp a))"
  "(compareFn a b = 0) = (toMillis (timestamp a) = toMillis (timestamp b))"
  by (auto simp: compareFn_def toDouble_sign)

lemma ids_unsorted: "keyed m \<Longrightarrow> map notif_id (map (annotate R) (map_values m)) = map fst m"
  by (simp add: keyed_def map_values_def comp_def notif_id_annotate)

lemma distinct_ids_merge: "distinct (map notif_id (allNotifications (mergeNotifications fs new R s)))"
proof -
  have k: "keyed (finalMap (allNotifications s) new)" by (rule keyed_finalMap)
  have "distinct (map notif_id (map (annotate R) (map_values (finalMap (allNotifications s) new))))"
    using k unfolding ids_unsorted[OF k] by (simp add: keyed_def)
  then show ?thesis by (simp only: allNotifications_merge distinct_ids_sortDesc)
qed

lemma set_merge:
  "set (allNotifications (mergeNotifications fs new R s)) = annotate R ` ran (spec_mapping (allNotifications s) new)"
proof -
  have "ran (map_of (finalMap (allNotifications s) new)) = snd ` set (finalMap (allNotifications s) new)"
    using keyed_finalMap[of "allNotifications s" new] by (simp add: keyed_def ran_distinct)
  then show ?thesis
    by (simp add: allNotifications_merge set_sortDesc map_values_def map_of_finalMap image_image)
qed

lemma ids_merge:
  "notif_id ` set (allNotifications (mergeNotifications fs new R s)) = notif_id ` set (allNotifications s) \<union> notif_id ` set new"
proof -
  have "notif_id ` set (allNotifications (mergeNotifications fs new R s))
        = set (map notif_id (map (annotate R) (map_values (finalMap (allNotifications s) new))))"
    by (simp only: allNotifications_merge set_sortDesc set_map)
  also have "\<dots> = fst ` set (finalMap (allNotifications s) new)"
    using keyed_finalMap[of "allNotifications s" new] by (simp only: ids_unsorted set_map)
  finally show ?thesis by (simp add: keys_finalMap)
qed

lemma dom_spec_mapping: "dom (spec_mapping prev new) = notif_id ` set prev \<union> notif_id ` set new"
  by (metis map_of_finalMap keys_finalMap dom_map_of_conv_image_fst)

lemma length_merge: "length (allNotifications (mergeNotifications fs new R s)) = card (dom (spec_mapping (allNotifications s) new))"
proof -
  have "card (dom (spec_mapping (allNotifications s) new)) = card (notif_id ` set (allNotifications (mergeNotifications fs new R s)))"
    by (simp add: dom_spec_mapping ids_merge)
  also have "\<dots> = length (map notif_id (allNotifications (mergeNotifications fs new R s)))"
    using distinct_ids_merge[of fs new R s] by (metis distinct_card set_map)
  finally show ?thesis by simp
qed

lemma isRead_merge: "n \<in> set (allNotifications (mergeNotifications fs new R s)) \<Longrightarrow> isRead n = (notif_id n \<in> R)"
  by (auto simp: set_merge isRead_annotate notif_id_annotate)

lemma keyed_lookup: "keyed m \<Longrightarrow> map_of m k = Some c \<Longrightarrow> notif_id c = k"
proof -
  assume k: "keyed m" and l: "map_of m k = Some c"
  from l have "(k, c) \<in> set m" by (rule map_of_SomeD)
  moreover from k have "\<forall>p \<in> set m. fst p = notif_id (snd p)"
    by (simp add: keyed_def)
  ultimately show ?thesis by fastforce
qed

lemma spec_mapping_key: "spec_mapping prev new k = Some c \<Longrightarrow> notif_id c = k"
  using keyed_lookup[OF keyed_finalMap, of prev new k c] by (simp add: map_of_finalMap)

lemma entry_merge:
  assumes "n \<in> set (allNotifications (mergeNotifications fs new R s))"
  shows "spec_mapping (allNotifications s) new (notif_id n) = Some (omitIsRead n)"
proof -
  from assms obtain c where c: "c \<in> ran (spec_mapping (allNotifications s) new)" and n: "n = annotate R c"
    by (auto simp: set_merge)
  from c obtain k where k: "spec_mapping (allNotifications s) new k = Some c"
    by (auto simp: ran_def)
  then have "notif_id c = k" by (rule spec_mapping_key)
  with k n show ?thesis by (simp add: notif_id_annotate omit_annotate)
qed

lemma sorted_wrt_weaken:
  "sorted_wrt P xs \<Longrightarrow> (\<And>x y. P x y \<Longrightarrow> Q x y) \<Longrightarrow> sorted_wrt Q xs"
  by (induction xs) auto

lemma order_by_time:
  assumes "toMillis t2 \<le> toMillis t1" "validTimestamp t1" "validTimestamp t2"
  shows "exactMillis t2 < exactMillis t1 + 1 / 16"
    and "exactMillis t1 < exactMillis t2 \<Longrightarrow> toMillis t1 = toMillis t2"
proof -
  show "exactMillis t2 < exactMillis t1 + 1 / 16"
  proof (rule ccontr)
    assume "\<not> exactMillis t2 < exactMillis t1 + 1 / 16"
    then have "exactMillis t1 + 1 / 16 \<le> exactMillis t2" by simp
    then have "toMillis t1 < toMillis t2" using assms(2,3) by (intro toMillis_separates)
    then show False using assms(1) by simp
  qed
  assume "exactMillis t1 < exactMillis t2"
  then have "toMillis t1 \<le> toMillis t2" using assms(2,3) by (intro toMillis_mono) simp_all
  then show "toMillis t1 = toMillis t2" using assms(1) by simp
qed

lemma stable_sortDesc:
  "filter (\<lambda>n. toMillis (timestamp n) = k) (sortDesc ns) = filter (\<lambda>n. toMillis (timestamp n) = k) ns"
  using sort_key_stable[of "\<lambda>n. - toMillis (timestamp n)" "- k" ns]
  by (simp add: sortDesc_def)

text \<open>
  Claim C1, as the code has it. For every previously reconciled list, every batch of
  new candidates and every read-identity set, the list that \<open>mergeNotifications\<close>
  stores is exactly the values of the identity-keyed mapping seeded from the existing
  list and overwritten, in turn, by each new candidate: one entry per key, each the
  mapping's value annotated with \<open>isRead = (identity \<in> readIds)\<close>. Its order is
  descending in \<open>timestamp.toMillis()\<close>, the double that the comparator of the code
  subtracts: the comparator is never positive on an entry and a later one, and
  entries of equal \<open>toMillis\<close> stand as \<open>notifsMap\<close> has them. In terms of the
  instants of valid timestamps: an entry is never followed by one that is 1/16 ms or
  more younger, and where it is followed by a younger one at all, the two have the
  same \<open>toMillis\<close>.
\<close>

theorem C1_merge_refines_mapping:
  "set (allNotifications (mergeNotifications fs newNotifs readIds s))
      = annotate readIds ` ran (spec_mapping (allNotifications s) newNotifs)
   \<and> distinct (map notif_id (allNotifications (mergeNotifications fs newNotifs readIds s)))
   \<and> length (allNotifications (mergeNotifications fs newNotifs readIds s))
      = card (dom (spec_mapping (allNotifications s) newNotifs))
   \<and> (\<forall>n \<in> set (allNotifications (mergeNotifications fs newNotifs readIds s)).
        isRead n = (notif_id n \<in> readIds)
        \<and> spec_mapping (allNotifications s) newNotifs (notif_id n) = Some (omitIsRead n))
   \<and> sorted_wrt (\<lambda>a b. toMillis (timestamp b) \<le> toMillis (timestamp a))
        (allNotifications (mergeNotifications fs newNotifs readIds s))
   \<and> sorted_wrt (\<lambda>a b. compareFn a b \<le> 0)
        (allNotifications (mergeNotifications fs newNotifs readIds s))
   \<and> (\<forall>k. filter (\<lambda>n. toMillis (timestamp n) = k) (allNotifications (mergeNotifications fs newNotifs readIds s))
          = filter (\<lambda>n. toMillis (timestamp n) = k)
              (map (annotate readIds) (map_values (finalMap (allNotifications s) newNotifs))))
   \<and> sorted_wrt (\<lambda>a b. validTimestamp (timestamp a) \<and> validTimestamp (timestamp b) \<longrightarrow>
          exactMillis (timestamp b) < exactMillis (timestamp a) + 1 / 16
          \<and> (exactMillis (timestamp a) < exactMillis (timestamp b)
               \<longrightarrow> toMillis (timestamp a) = toMillis (timestamp b)))
        (allNotifications (mergeNotifications fs newNotifs readIds s))"
proof (intro conjI ballI allI)
  show "set (allNotifications (mergeNotifications fs newNotifs readIds s))
      = annotate readIds ` ran (spec_mapping (allNotifications s) newNotifs)"
    by (rule set_merge)
  show "distinct (map notif_id (allNotifications (mergeNotifications fs newNotifs readIds s)))"
    by (rule distinct_ids_merge)
  show "length (allNotifications (mergeNotifications fs newNotifs readIds s))
      = card (dom (spec_mapping (allNotifications s) newNotifs))"
    by (rule length_merge)
  show srt: "sorted_wrt (\<lambda>a b. toMillis (timestamp b) \<le> toMillis (timestamp a))
        (allNotifications (mergeNotifications fs newNotifs readIds s))"
    by (simp only: allNotifications_merge sorted_sortDesc)
  show "sorted_wrt (\<lambda>a b. compareFn a b \<le> 0)
        (allNotifications (mergeNotifications fs newNotifs readIds s))"
  proof (rule sorted_wrt_weaken[OF srt])
    fix a b :: Notification
    assume "toMillis (timestamp b) \<le> toMillis (timestamp a)"
    then have "compareFn a b < 0 \<or> compareFn a b = 0"
      unfolding compareFn_sign by (simp only: le_less eq_commute[of "toMillis (timestamp a)"])
    then show "compareFn a b \<le> 0" by (simp only: le_less)
  qed
  show "sorted_wrt (\<lambda>a b. validTimestamp (timestamp a) \<and> validTimestamp (timestamp b) \<longrightarrow>
          exactMillis (timestamp b) < exactMillis (timestamp a) + 1 / 16
          \<and> (exactMillis (timestamp a) < exactMillis (timestamp b)
               \<longrightarrow> toMillis (timestamp a) = toMillis (timestamp b)))
        (allNotifications (mergeNotifications fs newNotifs readIds s))"
  proof (rule sorted_wrt_weaken[OF srt], intro impI conjI)
    fix a b :: Notification
    assume le: "toMillis (timestamp b) \<le> toMillis (timestamp a)"
      and v: "validTimestamp (timestamp a) \<and> validTimestamp (timestamp b)"
    from v have va: "validTimestamp (timestamp a)" and vb: "validTimestamp (timestamp b)" by blast+
    show "exactMillis (timestamp b) < exactMillis (timestamp a) + 1 / 16"
      using le va vb by (rule order_by_time(1))
    assume "exactMillis (timestamp a) < exactMillis (timestamp b)"
    with le va vb show "toMillis (timestamp a) = toMillis (timestamp b)"
      by (rule order_by_time(2))
  qed
next
  fix k
  show "filter (\<lambda>n. toMillis (timestamp n) = k) (allNotifications (mergeNotifications fs newNotifs readIds s))
          = filter (\<lambda>n. toMillis (timestamp n) = k)
              (map (annotate readIds) (map_values (finalMap (allNotifications s) newNotifs)))"
    by (simp only: allNotifications_merge stable_sortDesc)
next
  fix n assume n: "n \<in> set (allNotifications (mergeNotifications fs newNotifs readIds s))"
  then show "isRead n = (notif_id n \<in> readIds)" by (rule isRead_merge)
  from n show "spec_mapping (allNotifications s) newNotifs (notif_id n) = Some (omitIsRead n)"
    by (rule entry_merge)
qed

lemma sample_merge:
  "allNotifications (mergeNotifications True [cA, cB] {''msg-x''} initial)
     = [withIsRead True cB, withIsRead False cA]"
  by code_simp

lemma sample_times:
  "validTimestamp (timestamp cOld)" "validTimestamp (timestamp cNew)" "validTimestamp (timestamp cLater)"
  "exactMillis (timestamp cOld) = 1700000000000"
  "exactMillis (timestamp cNew) = 1700000000000 + 1 / 1000000"
  "exactMillis (timestamp cLater) = 1700000000001"
  by (simp_all add: cOld_def cNew_def cLater_def validTimestamp_def exactMillis_def)

lemma sample_millis_old: "toMillis (timestamp cOld) = 1700000000000"
  using toMillis_whole_ms[OF sample_times(1), of 0] by (simp add: cOld_def)

lemma sample_millis_later: "toMillis (timestamp cLater) = 1700000000001"
  using toMillis_whole_ms[OF sample_times(3), of 1] by (simp add: cLater_def)

lemma sample_millis_new: "toMillis (timestamp cNew) = 1700000000000"
proof -
  define q where "q = toDouble (of_int (nanoseconds (timestamp cNew)) / 1000000)"
  have q0: "0 \<le> q" unfolding q_def using sample_times(2) by (rule valid_parts(2))
  have "\<bar>q - of_int (nanoseconds (timestamp cNew)) / 1000000\<bar> \<le> 2 ^ 10 / 2 ^ 54"
    unfolding q_def using sample_times(2) by (rule valid_parts(4))
  then have "\<bar>q - 1 / 1000000\<bar> \<le> 1 / 17592186044416" by (simp add: cNew_def)
  then have q1: "q < 1 / 8192" by linarith
  have p: "toDouble (of_int (seconds (timestamp cNew)) * 1000) = 1700000000000"
    using valid_parts(1)[OF sample_times(2)] by (simp add: cNew_def)
  have "toDouble (1700000000000 + q) = of_int 6963200000000000 * 2 ^ 40 / 2 ^ 52"
    using q0 q1 by (intro toDouble_near_grid) simp_all
  then have "toDouble (1700000000000 + q) = 1700000000000" by simp
  then show ?thesis by (simp add: toMillis_def q_def[symmetric] p)
qed

lemma sample_fields:
  "notif_id cOld = ''msg-old''" "notif_id cNew = ''msg-new''" "notif_id cLater = ''msg-later''"
  "recipientEmail cOld = None" "recipientEmail cNew = None" "recipientEmail cLater = None"
  by (simp_all add: cOld_def cNew_def cLater_def)

lemma sample_ns_apart:
  "allNotifications (mergeNotifications True [cOld, cNew] {} initial)
     = [withIsRead False cOld, withIsRead False cNew]"
  by (simp add: mergeNotifications_def initial_def seed_def Let_def map_values_def annotate_def
        sortDesc_def sendEmailNotification_def email_with ts_with notif_id_withIsRead
        sample_fields sample_millis_old sample_millis_new)

lemma sample_ms_apart:
  "allNotifications (mergeNotifications True [cOld, cLater] {} initial)
     = [withIsRead False cLater, withIsRead False cOld]"
  by (simp add: mergeNotifications_def initial_def seed_def Let_def map_values_def annotate_def
        sortDesc_def sendEmailNotification_def email_with ts_with notif_id_withIsRead
        sample_fields sample_millis_old sample_millis_later)

text \<open>
  Claim C1 as the specification words it, descending order of the generation
  timestamp, does not hold: \<open>cNew\<close> is one nanosecond younger than \<open>cOld\<close>, both
  have the \<open>toMillis\<close> 1700000000000, and the stored list keeps the order of the
  batch, the older entry first.
\<close>

theorem C1_counterexample:
  "allNotifications (mergeNotifications True [cOld, cNew] {} initial)
     = [withIsRead False cOld, withIsRead False cNew]
   \<and> validTimestamp (timestamp cOld) \<and> validTimestamp (timestamp cNew)
   \<and> seconds (timestamp cOld) = seconds (timestamp cNew)
   \<and> nanoseconds (timestamp cOld) < nanoseconds (timestamp cNew)
   \<and> exactMillis (timestamp cOld) < exactMillis (timestamp cNew)
   \<and> \<not> sorted_wrt (\<lambda>a b. exactMillis (timestamp b) \<le> exactMillis (timestamp a))
         (allNotifications (mergeNotifications True [cOld, cNew] {} initial))"
proof -
  have "seconds (timestamp cOld) = seconds (timestamp cNew)"
    "nanoseconds (timestamp cOld) < nanoseconds (timestamp cNew)"
    by (simp_all add: cOld_def cNew_def)
  then show ?thesis
    by (simp add: sample_ns_apart sample_times ts_with)
qed

theorem C1_merge_refines_mapping_witness:
  "allNotifications (mergeNotifications True [cOld, cLater] {} initial)
     = [withIsRead False cLater, withIsRead False cOld]
   \<and> set [withIsRead False cLater, withIsRead False cOld]
     = annotate {} ` ran (spec_mapping [] [cOld, cLater])
   \<and> length [withIsRead False cLater, withIsRead False cOld] = card (dom (spec_mapping [] [cOld, cLater]))
   \<and> toMillis (timestamp cOld) \<le> toMillis (timestamp cLater)
   \<and> compareFn (withIsRead False cLater) (withIsRead False cOld) \<le> 0
   \<and> validTimestamp (timestamp cOld) \<and> validTimestamp (timestamp cLater)
   \<and> exactMillis (timestamp cOld) < exactMillis (timestamp cLater) + 1 / 16"
proof -
  have i: "allNotifications initial = []" by (simp add: initial_def)
  have t: "timestamp (withIsRead False cLater) = timestamp cLater" "timestamp (withIsRead False cOld) = timestamp cOld"
    by (simp_all add: ts_with)
  show ?thesis
    using C1_merge_refines_mapping[of True "[cOld, cLater]" "{}" initial] sample_times(1,3)
    unfolding sample_ms_apart i by (simp add: t)
qed

lemma unread_reconciled:
  assumes d: "distinct (map notif_id ns)" and r: "\<forall>n \<in> set ns. isRead n = (notif_id n \<in> R)"
  shows "length (filter (\<lambda>n. \<not> isRead n) ns) = card (notif_id ` set ns - R)"
proof -
  have f: "filter (\<lambda>n. \<not> isRead n) ns = filter (\<lambda>n. notif_id n \<notin> R) ns"
    using r by (intro filter_cong) auto
  have "distinct (map notif_id (filter (\<lambda>n. notif_id n \<notin> R) ns))"
    using d by (rule distinct_map_filter)
  then have "card (set (map notif_id (filter (\<lambda>n. notif_id n \<notin> R) ns)))
      = length (map notif_id (filter (\<lambda>n. notif_id n \<notin> R) ns))"
    by (rule distinct_card)
  moreover have "set (map notif_id (filter (\<lambda>n. notif_id n \<notin> R) ns)) = notif_id ` set ns - R"
    by auto
  ultimately show ?thesis using f by simp
qed

subsection \<open>The unread counter\<close>

text \<open>
  Claim C3. For the list that a merge pass stores under the read-identity set
  \<open>readIds\<close>, with identity set \<open>I\<close>, \<open>unreadCount\<close> is the cardinality of
  \<open>I - readIds\<close>; and \<open>I\<close> is the identities of the previous list together with
  those of the batch.
\<close>

theorem C3_unread_count:
  "unreadCount (mergeNotifications fs newNotifs readIds s)
     = card (notif_id ` set (allNotifications (mergeNotifications fs newNotifs readIds s)) - readIds)
   \<and> unreadCount (mergeNotifications fs newNotifs readIds s)
     = card ((notif_id ` set (allNotifications s) \<union> notif_id ` set newNotifs) - readIds)"
proof -
  have "unreadCount (mergeNotifications fs newNotifs readIds s)
     = card (notif_id ` set (allNotifications (mergeNotifications fs newNotifs readIds s)) - readIds)"
    unfolding unreadCount_def
    by (rule unread_reconciled) (simp_all add: distinct_ids_merge isRead_merge)
  then show ?thesis by (simp add: ids_merge)
qed

lemma sample_unread: "unreadCount (mergeNotifications True [cA, cB] {''msg-x''} initial) = 1"
  by code_simp

theorem C3_unread_count_witness:
  "unreadCount (mergeNotifications True [cA, cB] {''msg-x''} initial) = 1
   \<and> card (notif_id ` set [withIsRead True cB, withIsRead False cA] - {''msg-x''}) = 1"
  using C3_unread_count[of True "[cA, cB]" "{''msg-x''}" initial]
  unfolding sample_unread sample_merge by simp

subsection \<open>Sessions\<close>

lemma allNotifications_settled: "allNotifications (sendEmailSettled k ok s) = allNotifications s"
  by (simp add: sendEmailSettled_def)

lemma ids_step: "notif_id ` set (allNotifications s) \<subseteq> notif_id ` set (allNotifications (step fs e s))"
  by (cases e) (simp_all add: ids_merge allNotifications_settled)

lemma run_Nil: "run fs [] s = s" by (simp add: run_def)
lemma run_Cons: "run fs (e # evs) s = run fs evs (step fs e s)" by (simp add: run_def)
lemma run_append: "run fs (es @ evs) s = run fs evs (run fs es s)" by (simp add: run_def)

lemma ids_run: "notif_id ` set (allNotifications s) \<subseteq> notif_id ` set (allNotifications (run fs evs s))"
proof (induction evs arbitrary: s)
  case Nil show ?case by (simp add: run_Nil)
next
  case (Cons e evs)
  have "notif_id ` set (allNotifications s) \<subseteq> notif_id ` set (allNotifications (step fs e s))"
    by (rule ids_step)
  also have "\<dots> \<subseteq> notif_id ` set (allNotifications (run fs evs (step fs e s)))" by (rule Cons.IH)
  finally show ?case by (simp add: run_Cons)
qed

lemma unread_stays:
  assumes "n \<in> set (allNotifications s)" "notif_id n \<notin> R"
  shows "\<exists>n' \<in> set (allNotifications (mergeNotifications fs new R s)). notif_id n' = notif_id n \<and> \<not> isRead n'"
proof -
  have "notif_id n \<in> notif_id ` set (allNotifications (mergeNotifications fs new R s))"
    using assms(1) by (simp add: ids_merge)
  then obtain n' where n': "n' \<in> set (allNotifications (mergeNotifications fs new R s))" "notif_id n' = notif_id n"
    by auto
  with assms(2) isRead_merge[OF n'(1)] show ?thesis by auto
qed

lemma unread_positive:
  assumes "n \<in> set (allNotifications s)" "notif_id n \<notin> R"
  shows "0 < unreadCount (mergeNotifications fs new R s)"
proof -
  from unread_stays[OF assms] obtain n' where "n' \<in> set (allNotifications (mergeNotifications fs new R s))" "\<not> isRead n'"
    by blast
  then have "filter (\<lambda>n. \<not> isRead n) (allNotifications (mergeNotifications fs new R s)) \<noteq> []"
    by (auto simp: filter_empty_conv)
  then show ?thesis by (simp add: unreadCount_def)
qed

text \<open>
  Claim C9. No merge pass, and no sequence of events of a session, removes an
  identity from the reconciled list: the identity set only grows. An entry that is
  in the list and whose identity is not in the read-identity set of a pass is still
  there after the pass as an unread entry, so the unread counter is positive,
  whether or not the batch of the pass mentions it.
\<close>

theorem C9_identities_never_removed:
  "notif_id ` set (allNotifications s) \<subseteq> notif_id ` set (allNotifications (mergeNotifications fs newNotifs readIds s))
   \<and> notif_id ` set (allNotifications s) \<subseteq> notif_id ` set (allNotifications (run fs evs s))
   \<and> (\<forall>n \<in> set (allNotifications s). notif_id n \<notin> readIds \<longrightarrow>
        (\<exists>n' \<in> set (allNotifications (mergeNotifications fs newNotifs readIds s)).
           notif_id n' = notif_id n \<and> \<not> isRead n')
        \<and> 0 < unreadCount (mergeNotifications fs newNotifs readIds s))"
  using ids_run[of s fs evs] unread_stays[of _ s readIds fs newNotifs] unread_positive[of _ s readIds fs newNotifs]
  by (simp add: ids_merge)

lemma sample_second:
  "allNotifications (mergeNotifications True [] {} (mergeNotifications True [cA, cB] {''msg-x''} initial))
     = [withIsRead False cB, withIsRead False cA]"
  by code_simp

lemma sample_second_unread:
  "unreadCount (mergeNotifications True [] {} (mergeNotifications True [cA, cB] {''msg-x''} initial)) = 2"
  by code_simp

theorem C9_identities_never_removed_witness:
  "notif_id ` set (allNotifications (mergeNotifications True [cA, cB] {''msg-x''} initial))
     \<subseteq> notif_id ` set (allNotifications
          (mergeNotifications True [] {} (mergeNotifications True [cA, cB] {''msg-x''} initial)))
   \<and> 0 < unreadCount (mergeNotifications True [] {} (mergeNotifications True [cA, cB] {''msg-x''} initial))
   \<and> unreadCount (mergeNotifications True [] {} (mergeNotifications True [cA, cB] {''msg-x''} initial)) = 2"
  using C9_identities_never_removed[of "mergeNotifications True [cA, cB] {''msg-x''} initial" True "[]" "{}" "[]"]
  by (simp add: sample_second_unread sample_merge)

subsection \<open>Order of disjoint passes\<close>

lemma fold_upd_candMap: "fold (\<lambda>c f. f(notif_id c \<mapsto> c)) cs f0 = f0 ++ candMap cs"
proof (induction cs arbitrary: f0)
  case Nil show ?case by (simp add: candMap_def)
next
  case (Cons c cs)
  have 1: "candMap (c # cs) = [notif_id c \<mapsto> c] ++ candMap cs"
    by (simp add: candMap_def)
  have 2: "f0 ++ ([notif_id c \<mapsto> c] ++ candMap cs) = f0(notif_id c \<mapsto> c) ++ candMap cs"
    by (rule ext) (simp add: map_add_def split: option.splits)
  have "fold (\<lambda>c f. f(notif_id c \<mapsto> c)) (c # cs) f0
      = fold (\<lambda>c f. f(notif_id c \<mapsto> c)) cs (f0(notif_id c \<mapsto> c))"
    by (simp only: fold_Cons o_apply)
  also have "\<dots> = f0(notif_id c \<mapsto> c) ++ candMap cs" by (rule Cons.IH)
  finally show ?case by (simp only: 1 2)
qed

lemma dom_candMap: "dom (candMap cs) = notif_id ` set cs"
  by (simp add: candMap_def dom_map_of_conv_image_fst image_image)

lemma spec_mapping_add: "spec_mapping prev new = map_of (seed prev) ++ candMap new"
proof -
  have "spec_mapping prev new = map_of (finalMap prev new)" by (simp add: map_of_finalMap)
  also have "\<dots> = map_of (seed prev) ++ candMap new"
    by (simp add: finalMap_def map_of_setAll fold_upd_candMap)
  finally show ?thesis .
qed

lemma mappingOf_Some:
  assumes "distinct (map notif_id ns)"
  shows "(mappingOf ns k = Some n) = (n \<in> set ns \<and> notif_id n = k)"
proof -
  have "distinct (map fst (map (\<lambda>n. (notif_id n, n)) ns))" using assms by (simp add: comp_def)
  then have "(mappingOf ns k = Some n) = ((k, n) \<in> set (map (\<lambda>n. (notif_id n, n)) ns))"
    unfolding mappingOf_def by (rule map_of_eq_Some_iff)
  then show ?thesis by auto
qed

lemma map_eqI_Some: "(\<And>v. (f k = Some v) = (g k = Some v)) \<Longrightarrow> f k = g k"
  by (cases "f k"; cases "g k") auto

lemma mappingOf_merge:
  "mappingOf (allNotifications (mergeNotifications fs new R s))
     = map_option (annotate R) \<circ> spec_mapping (allNotifications s) new"
proof
  fix k
  let ?out = "allNotifications (mergeNotifications fs new R s)"
  let ?M = "spec_mapping (allNotifications s) new"
  show "mappingOf ?out k = (map_option (annotate R) \<circ> ?M) k"
  proof (rule map_eqI_Some)
    fix n
    have "(mappingOf ?out k = Some n) = (n \<in> set ?out \<and> notif_id n = k)"
      by (rule mappingOf_Some) (rule distinct_ids_merge)
    also have "\<dots> = ((map_option (annotate R) \<circ> ?M) k = Some n)"
    proof
      assume a: "n \<in> set ?out \<and> notif_id n = k"
      then have "?M k = Some (omitIsRead n)" using entry_merge[of n fs new R s] by simp
      moreover from a obtain c where "n = annotate R c" by (auto simp: set_merge)
      ultimately show "(map_option (annotate R) \<circ> ?M) k = Some n" by (simp add: omit_annotate)
    next
      assume "(map_option (annotate R) \<circ> ?M) k = Some n"
      then obtain c where c: "?M k = Some c" "n = annotate R c" by auto
      then have "c \<in> ran ?M" by (auto simp: ran_def)
      with c spec_mapping_key[OF c(1)] show "n \<in> set ?out \<and> notif_id n = k"
        by (simp add: set_merge notif_id_annotate)
    qed
    finally show "(mappingOf ?out k = Some n) = ((map_option (annotate R) \<circ> ?M) k = Some n)" .
  qed
qed

lemma map_of_rev_distinct: "distinct (map fst xs) \<Longrightarrow> map_of (rev xs) = map_of xs"
proof (rule ext, rule map_eqI_Some)
  fix k v assume d: "distinct (map fst xs)"
  then have "distinct (map fst (rev xs))" by (simp add: rev_map[symmetric])
  then have "(map_of (rev xs) k = Some v) = ((k, v) \<in> set (rev xs))" by (rule map_of_eq_Some_iff)
  also have "\<dots> = (map_of xs k = Some v)" using d by simp
  finally show "(map_of (rev xs) k = Some v) = (map_of xs k = Some v)" .
qed

lemma map_of_seed:
  assumes "distinct (map notif_id ns)"
  shows "map_of (seed ns) = map_option omitIsRead \<circ> mappingOf ns"
proof -
  have d: "distinct (map fst (map (\<lambda>c. (notif_id c, c)) (map omitIsRead ns)))"
    using assms by (simp add: comp_def notif_id_omit)
  have "map_of (seed ns) = candMap (map omitIsRead ns)"
    by (simp add: seed_setAll map_of_setAll fold_upd_candMap)
  also have "\<dots> = map_of (map (\<lambda>c. (notif_id c, c)) (map omitIsRead ns))"
    unfolding candMap_def rev_map[symmetric] using d by (rule map_of_rev_distinct)
  also have "\<dots> = map_of (map (\<lambda>(k, n). (k, omitIsRead n)) (map (\<lambda>n. (notif_id n, n)) ns))"
    by (simp add: comp_def notif_id_omit)
  also have "\<dots> = map_option omitIsRead \<circ> mappingOf ns"
    unfolding mappingOf_def by (rule map_of_map)
  finally show ?thesis .
qed

lemma map_of_seed_merge:
  "map_of (seed (allNotifications (mergeNotifications fs A R s))) = spec_mapping (allNotifications s) A"
proof -
  have "map_of (seed (allNotifications (mergeNotifications fs A R s)))
      = map_option omitIsRead \<circ> (map_option (annotate R) \<circ> spec_mapping (allNotifications s) A)"
    by (simp only: map_of_seed[OF distinct_ids_merge] mappingOf_merge)
  also have "\<dots> = spec_mapping (allNotifications s) A"
    by (rule ext) (simp add: option.map_comp comp_def omit_annotate option.map_ident)
  finally show ?thesis .
qed

lemma spec_mapping_after_merge:
  "spec_mapping (allNotifications (mergeNotifications fs A R s)) B
     = (map_of (seed (allNotifications s)) ++ candMap A) ++ candMap B"
  by (simp only: spec_mapping_add[of "allNotifications (mergeNotifications fs A R s)"] map_of_seed_merge
        spec_mapping_add[of "allNotifications s"])

lemma merge_commute:
  assumes "notif_id ` set A \<inter> notif_id ` set B = {}"
  shows "mappingOf (allNotifications (mergeNotifications fs B R (mergeNotifications fs A R s)))
       = mappingOf (allNotifications (mergeNotifications fs A R (mergeNotifications fs B R s)))"
proof -
  have c: "candMap A ++ candMap B = candMap B ++ candMap A"
    using assms by (intro map_add_comm) (simp add: dom_candMap)
  have "(map_of (seed (allNotifications s)) ++ candMap A) ++ candMap B
      = (map_of (seed (allNotifications s)) ++ candMap B) ++ candMap A"
    by (simp only: map_add_assoc[symmetric] c)
  then show ?thesis by (simp only: mappingOf_merge spec_mapping_after_merge)
qed

lemma annotate_omit: "annotate R (omitIsRead n) = n\<lparr>isRead := notif_id n \<in> R\<rparr>"
  by (simp add: annotate_def withIsRead_def omitIsRead_def Candidate.extend_def Candidate.truncate_def Notification.fields_def)

lemma untouched_kept:
  assumes d: "distinct (map notif_id (allNotifications s))"
    and n: "n \<in> set (allNotifications s)" and u: "notif_id n \<notin> notif_id ` set A"
  shows "mappingOf (allNotifications (mergeNotifications fs A R s)) (notif_id n) = Some (n\<lparr>isRead := notif_id n \<in> R\<rparr>)"
proof -
  have "candMap A (notif_id n) = None" using u by (simp add: dom_candMap[symmetric] domIff)
  then have "spec_mapping (allNotifications s) A (notif_id n) = map_of (seed (allNotifications s)) (notif_id n)"
    by (simp add: spec_mapping_add map_add_def)
  also have "\<dots> = Some (omitIsRead n)"
    using mappingOf_Some[OF d, of "notif_id n" n] n by (simp add: map_of_seed[OF d])
  finally show ?thesis by (simp add: mappingOf_merge annotate_omit)
qed

text \<open>
  Claim C4. For every state, every read-identity set and every two batches with
  disjoint identity sets, the two merge passes give the same identity-keyed mapping
  in either order. And in any merge pass from a list with distinct identities, an
  entry whose identity is not in the batch is still in the list, all fields as
  before except \<open>isRead\<close>, which is recomputed from the read-identity set.
\<close>

theorem C4_disjoint_batches_commute:
  assumes "notif_id ` set A \<inter> notif_id ` set B = {}"
  shows "mappingOf (allNotifications (mergeNotifications fs B R (mergeNotifications fs A R s)))
       = mappingOf (allNotifications (mergeNotifications fs A R (mergeNotifications fs B R s)))
    \<and> (distinct (map notif_id (allNotifications s)) \<longrightarrow>
         (\<forall>n \<in> set (allNotifications s). notif_id n \<notin> notif_id ` set A \<longrightarrow>
            mappingOf (allNotifications (mergeNotifications fs A R s)) (notif_id n)
              = Some (n\<lparr>isRead := notif_id n \<in> R\<rparr>)
            \<and> n\<lparr>isRead := notif_id n \<in> R\<rparr> \<in> set (allNotifications (mergeNotifications fs A R s))))"
proof (intro conjI impI ballI)
  show "mappingOf (allNotifications (mergeNotifications fs B R (mergeNotifications fs A R s)))
       = mappingOf (allNotifications (mergeNotifications fs A R (mergeNotifications fs B R s)))"
    using assms by (rule merge_commute)
next
  fix n
  assume d: "distinct (map notif_id (allNotifications s))" and n: "n \<in> set (allNotifications s)"
    and u: "notif_id n \<notin> notif_id ` set A"
  show k: "mappingOf (allNotifications (mergeNotifications fs A R s)) (notif_id n)
              = Some (n\<lparr>isRead := notif_id n \<in> R\<rparr>)"
    using d n u by (rule untouched_kept)
  show "n\<lparr>isRead := notif_id n \<in> R\<rparr> \<in> set (allNotifications (mergeNotifications fs A R s))"
    using k mappingOf_Some[OF distinct_ids_merge, of fs A R s "notif_id n" "n\<lparr>isRead := notif_id n \<in> R\<rparr>"]
    by simp
qed

lemma sample_s0: "allNotifications (mergeNotifications True [cB] {''msg-x''} initial) = [withIsRead True cB]"
  by code_simp

lemma sample_s0A: "allNotifications (mergeNotifications True [cA] {} (mergeNotifications True [cB] {''msg-x''} initial))
    = [withIsRead False cB, withIsRead False cA]"
  by code_simp

theorem C4_disjoint_batches_commute_witness:
  "notif_id ` set [cA] \<inter> notif_id ` set [cC] = {}
   \<and> mappingOf (allNotifications (mergeNotifications True [cC] {}
        (mergeNotifications True [cA] {} (mergeNotifications True [cB] {''msg-x''} initial))))
     = mappingOf (allNotifications (mergeNotifications True [cA] {}
        (mergeNotifications True [cC] {} (mergeNotifications True [cB] {''msg-x''} initial))))
   \<and> withIsRead False cB \<in> set (allNotifications
        (mergeNotifications True [cA] {} (mergeNotifications True [cB] {''msg-x''} initial)))"
proof -
  have h: "notif_id ` set [cA] \<inter> notif_id ` set [cC] = {}"
    by (simp add: cA_def cC_def)
  have u: "(withIsRead True cB)\<lparr>isRead := notif_id (withIsRead True cB) \<in> {}\<rparr> = withIsRead False cB"
    by (simp add: withIsRead_def Candidate.extend_def Notification.fields_def)
  note t = C4_disjoint_batches_commute[OF h, of True "{}" "mergeNotifications True [cB] {''msg-x''} initial"]
  have d: "distinct (map notif_id (allNotifications (mergeNotifications True [cB] {''msg-x''} initial)))"
    by (simp add: sample_s0)
  have m: "withIsRead True cB \<in> set (allNotifications (mergeNotifications True [cB] {''msg-x''} initial))"
    by (simp add: sample_s0)
  have ne: "notif_id (withIsRead True cB) \<notin> notif_id ` set [cA]"
    by (simp add: notif_id_withIsRead cA_def cB_def)
  from t d m ne
  have "(withIsRead True cB)\<lparr>isRead := notif_id (withIsRead True cB) \<in> {}\<rparr>
      \<in> set (allNotifications (mergeNotifications True [cA] {} (mergeNotifications True [cB] {''msg-x''} initial)))"
    by blast
  with h t show ?thesis unfolding u by blast
qed

subsection \<open>Passes that bring nothing new\<close>

lemma snd_forEachNew_known:
  "notif_id ` set cs \<subseteq> fst ` set m \<Longrightarrow> snd (forEachNew fs R cs m s) = s"
proof (induction cs arbitrary: m)
  case Nil show ?case by simp
next
  case (Cons c cs)
  have k: "fst ` set (map_set (notif_id c) c m) = fst ` set m"
    using Cons.prems keys_map_set[of "notif_id c" c m] by (metis (no_types, lifting) list.set_map list.set_intros(1) image_subset_iff)
  have "snd (forEachNew fs R cs (map_set (notif_id c) c m) s) = s"
    using Cons.prems by (intro Cons.IH) (simp add: k)
  then show ?case using Cons.prems by (simp add: map_has_iff Let_def)
qed

lemma merge_unfold:
  "mergeNotifications fs new R s
     = (snd (forEachNew fs R new (seed (allNotifications s)) s))
         \<lparr> allNotifications := sortDesc (map (annotate R) (map_values (finalMap (allNotifications s) new))) \<rparr>"
proof -
  obtain m s' where e: "forEachNew fs R new (seed (allNotifications s)) s = (m, s')"
    by (cases "forEachNew fs R new (seed (allNotifications s)) s")
  have "m = finalMap (allNotifications s) new"
    using fst_forEachNew[of fs R new "seed (allNotifications s)" s] e by (simp add: finalMap_def)
  then show ?thesis by (simp add: mergeNotifications_def e)
qed

lemma keys_seed: "fst ` set (seed ns) = notif_id ` set ns"
  by (simp add: seed_setAll keys_setAll image_image notif_id_omit)

lemma merge_known:
  assumes "notif_id ` set new \<subseteq> notif_id ` set (allNotifications s)"
  shows "outbox (mergeNotifications fs new R s) = outbox s"
    and "sentEmails (mergeNotifications fs new R s) = sentEmails s"
  using snd_forEachNew_known[of new "seed (allNotifications s)" fs R s] assms
  by (simp_all add: merge_unfold keys_seed)

subsection \<open>Merging a batch again\<close>

lemma alist_by_keys:
  "distinct (map fst a) \<Longrightarrow> a = map (\<lambda>k. (k, the (map_of a k))) (map fst a)"
proof (induction a)
  case Nil show ?case by simp
next
  case (Cons p a)
  obtain k v where p: "p = (k, v)" by (cases p)
  have nk: "k \<notin> set (map fst a)" using Cons.prems by (simp add: p)
  have "\<And>x. x \<in> set (map fst a) \<Longrightarrow> map_of (p # a) x = map_of a x"
    using nk by (auto simp: p)
  then have e1: "map (\<lambda>k. (k, the (map_of (p # a) k))) (map fst a) = map (\<lambda>k. (k, the (map_of a k))) (map fst a)"
    by (intro map_cong refl) simp
  have d: "distinct (map fst a)" using Cons.prems by simp
  have e2: "map (\<lambda>k. (k, the (map_of a k))) (map fst a) = a"
    using Cons.IH[OF d] by (rule sym)
  have "map (\<lambda>k. (k, the (map_of (p # a) k))) (map fst (p # a))
      = (k, v) # map (\<lambda>k. (k, the (map_of (p # a) k))) (map fst a)"
    by (simp add: p)
  also have "\<dots> = (k, v) # a" by (simp only: e1 e2)
  finally show ?case by (simp only: p)
qed

lemma alist_eqI:
  assumes "distinct (map fst a)" "map fst a = map fst b" "map_of a = map_of b"
  shows "a = b"
proof -
  have "a = map (\<lambda>k. (k, the (map_of a k))) (map fst a)" using assms(1) by (rule alist_by_keys)
  moreover have "b = map (\<lambda>k. (k, the (map_of b k))) (map fst b)"
    using assms(1,2) by (intro alist_by_keys) simp
  ultimately show ?thesis using assms(2,3) by simp
qed

lemma keys_setAll_known:
  "notif_id ` set cs \<subseteq> fst ` set m \<Longrightarrow> map fst (setAll cs m) = map fst m"
proof (induction cs arbitrary: m)
  case Nil show ?case by (simp add: setAll_Nil)
next
  case (Cons c cs)
  have k: "map fst (map_set (notif_id c) c m) = map fst m"
    using Cons.prems by (simp add: keys_map_set)
  then have "fst ` set (map_set (notif_id c) c m) = fst ` set m"
    by (metis list.set_map)
  then have "map fst (setAll cs (map_set (notif_id c) c m)) = map fst (map_set (notif_id c) c m)"
    using Cons.prems by (intro Cons.IH) simp
  then show ?case by (simp add: setAll_Cons k)
qed

lemma setAll_fresh:
  "distinct (map notif_id cs) \<Longrightarrow> notif_id ` set cs \<inter> fst ` set m = {}
     \<Longrightarrow> setAll cs m = m @ map (\<lambda>c. (notif_id c, c)) cs"
proof (induction cs arbitrary: m)
  case Nil show ?case by (simp add: setAll_Nil)
next
  case (Cons c cs)
  have f: "notif_id c \<notin> fst ` set m" using Cons.prems(2) by auto
  have ms: "map_set (notif_id c) c m = m @ [(notif_id c, c)]"
    using f by (induction m) auto
  have "setAll cs (m @ [(notif_id c, c)]) = (m @ [(notif_id c, c)]) @ map (\<lambda>c. (notif_id c, c)) cs"
    using Cons.prems by (intro Cons.IH) auto
  then show ?case by (simp add: setAll_Cons ms)
qed

lemma seed_distinct:
  "distinct (map notif_id ns) \<Longrightarrow> seed ns = map (\<lambda>n. (notif_id n, omitIsRead n)) ns"
  using setAll_fresh[of "map omitIsRead ns" "[]"]
  by (simp add: seed_setAll comp_def notif_id_omit)

lemma sortDesc_idem: "sortDesc (sortDesc ns) = sortDesc ns"
  unfolding sortDesc_def by (rule sort_key_id_if_sorted) (rule sorted_sort_key)

lemma map_add_twice: "(f ++ g) ++ g = f ++ g"
  by (rule ext) (simp add: map_add_def split: option.splits)

lemma finalMap_again:
  "finalMap (allNotifications (mergeNotifications fs B R s)) B
     = seed (allNotifications (mergeNotifications fs B R s))"
proof (rule alist_eqI)
  let ?L = "allNotifications (mergeNotifications fs B R s)"
  show "distinct (map fst (finalMap ?L B))"
    using keyed_finalMap[of ?L B] by (simp add: keyed_def)
  have "notif_id ` set B \<subseteq> fst ` set (seed ?L)"
    by (simp add: keys_seed ids_merge)
  then show "map fst (finalMap ?L B) = map fst (seed ?L)"
    unfolding finalMap_def by (rule keys_setAll_known)
  show "map_of (finalMap ?L B) = map_of (seed ?L)"
    by (simp only: map_of_finalMap spec_mapping_after_merge map_add_twice map_of_seed_merge spec_mapping_add)
qed

lemma list_again:
  "allNotifications (mergeNotifications fs B R (mergeNotifications fs B R s))
     = allNotifications (mergeNotifications fs B R s)"
proof -
  let ?L = "allNotifications (mergeNotifications fs B R s)"
  have "map (annotate R) (map_values (seed ?L)) = map (\<lambda>n. annotate R (omitIsRead n)) ?L"
    by (simp add: seed_distinct[OF distinct_ids_merge] map_values_def comp_def)
  also have "\<dots> = map (\<lambda>n. n) ?L"
    by (intro map_cong refl) (simp add: annotate_omit isRead_merge[symmetric])
  finally have "map (annotate R) (map_values (seed ?L)) = ?L" by simp
  then have "allNotifications (mergeNotifications fs B R (mergeNotifications fs B R s)) = sortDesc ?L"
    by (simp only: allNotifications_merge[of fs B R "mergeNotifications fs B R s"] finalMap_again)
  also have "\<dots> = ?L"
    by (simp only: allNotifications_merge[of fs B R s] sortDesc_idem)
  finally show ?thesis .
qed

lemma merge_idem: "mergeNotifications fs B R (mergeNotifications fs B R s) = mergeNotifications fs B R s"
proof -
  let ?s1 = "mergeNotifications fs B R s"
  have k: "notif_id ` set B \<subseteq> fst ` set (seed (allNotifications ?s1))"
    by (simp add: keys_seed ids_merge)
  have "mergeNotifications fs B R ?s1 = ?s1\<lparr> allNotifications := allNotifications (mergeNotifications fs B R ?s1) \<rparr>"
    by (simp add: merge_unfold[of fs B R ?s1] snd_forEachNew_known[OF k])
  then show ?thesis by (simp add: list_again)
qed

lemma remerge_later:
  "outbox (mergeNotifications fs B R (run fs evs (mergeNotifications fs B R' s)))
     = outbox (run fs evs (mergeNotifications fs B R' s))"
proof (rule merge_known)
  have "notif_id ` set B \<subseteq> notif_id ` set (allNotifications (mergeNotifications fs B R' s))"
    by (simp add: ids_merge)
  also have "\<dots> \<subseteq> notif_id ` set (allNotifications (run fs evs (mergeNotifications fs B R' s)))"
    by (rule ids_run)
  finally show "notif_id ` set B \<subseteq> notif_id ` set (allNotifications (run fs evs (mergeNotifications fs B R' s)))" .
qed

text \<open>
  Claim C5. Merging the same batch again under the same read-identity set changes
  nothing: the whole state is as after the first merge, so every entry keeps its
  \<open>isRead\<close> flag and no mail document is requested. And whatever events lie
  between, and whatever the read-identity sets, a later merge of a batch that was
  merged before in the session requests no mail document.
\<close>

theorem C5_remerge_idempotent:
  "mergeNotifications fs B R (mergeNotifications fs B R s) = mergeNotifications fs B R s
   \<and> map isRead (allNotifications (mergeNotifications fs B R (mergeNotifications fs B R s)))
       = map isRead (allNotifications (mergeNotifications fs B R s))
   \<and> outbox (mergeNotifications fs B R (mergeNotifications fs B R s)) = outbox (mergeNotifications fs B R s)
   \<and> outbox (mergeNotifications fs B R (run fs evs (mergeNotifications fs B R' s)))
       = outbox (run fs evs (mergeNotifications fs B R' s))"
  by (simp only: merge_idem remerge_later simp_thms)

lemma sample_outbox:
  "outbox (mergeNotifications True [cA, cB] {''msg-x''} initial) = [(''bid-r1'', mailData (withIsRead False cA))]"
  by code_simp

theorem C5_remerge_idempotent_witness:
  "allNotifications (mergeNotifications True [cA, cB] {''msg-x''}
       (mergeNotifications True [cA, cB] {''msg-x''} initial))
     = [withIsRead True cB, withIsRead False cA]
   \<and> outbox (mergeNotifications True [cA, cB] {''msg-x''}
       (mergeNotifications True [cA, cB] {''msg-x''} initial))
     = [(''bid-r1'', mailData (withIsRead False cA))]"
  using C5_remerge_idempotent[of True "[cA, cB]" "{''msg-x''}" initial "[]" "{''msg-x''}"]
  by (simp add: sample_merge sample_outbox)

subsection \<open>Mail requests in a session\<close>

lemma keys_map_set_set: "fst ` set (map_set k v m) = insert k (fst ` set m)"
proof -
  have "set (map fst (map_set k v m)) = insert k (set (map fst m))"
    by (simp only: keys_map_set) auto
  then show ?thesis by simp
qed

lemma snd_forEachNew:
  "sentEmails s \<subseteq> fst ` set m \<Longrightarrow>
   snd (forEachNew fs R cs m s) = s\<lparr> outbox := outbox s @ emitted fs R cs (fst ` set m) \<rparr>"
proof (induction cs arbitrary: m s)
  case Nil show ?case by simp
next
  case (Cons c cs)
  let ?m' = "map_set (notif_id c) c m"
  let ?s' = "if \<not> map_has (notif_id c) m \<and> notif_id c \<notin> R
             then sendEmailNotification fs (withIsRead False c) s else s"
  have s': "?s' = s\<lparr> outbox := outbox s @
      (if notif_id c \<notin> fst ` set m \<and> notif_id c \<notin> R \<and> fs \<and> truthy (recipientEmail c)
       then [(notif_id c, mailData (withIsRead False c))] else []) \<rparr>"
    using Cons.prems
    by (auto simp: map_has_iff sendEmailNotification_def notif_id_withIsRead email_with)
  have sub: "sentEmails ?s' \<subseteq> fst ` set ?m'"
    using Cons.prems by (auto simp: s' keys_map_set_set)
  have "snd (forEachNew fs R (c # cs) m s) = snd (forEachNew fs R cs ?m' ?s')"
    by (simp add: Let_def)
  also have "\<dots> = ?s'\<lparr> outbox := outbox ?s' @ emitted fs R cs (fst ` set ?m') \<rparr>"
    using sub by (rule Cons.IH)
  also have "\<dots> = s\<lparr> outbox := outbox s @ emitted fs R (c # cs) (fst ` set m) \<rparr>"
    by (simp only: s' keys_map_set_set) simp
  finally show ?case .
qed

lemma keys_emitted: "fst ` set (emitted fs R cs seen) \<subseteq> notif_id ` set cs - seen"
  by (induction cs arbitrary: seen) auto

lemma distinct_emitted: "distinct (map fst (emitted fs R cs seen))"
proof (induction cs arbitrary: seen)
  case Nil show ?case by simp
next
  case (Cons c cs)
  have "notif_id c \<notin> fst ` set (emitted fs R cs (insert (notif_id c) seen))"
    using keys_emitted[of fs R cs "insert (notif_id c) seen"] by auto
  then show ?case using Cons[of "insert (notif_id c) seen"] by (auto simp: image_iff)
qed

lemma count_emitted:
  "length (filter (\<lambda>p. fst p = x) (emitted fs R cs seen))
     = (if x \<in> notif_id ` set cs \<and> x \<notin> seen \<and> x \<notin> R \<and> fs \<and> truthy (firstEmail x cs) then 1 else 0)"
proof (induction cs arbitrary: seen)
  case Nil show ?case by simp
next
  case (Cons c cs)
  show ?case
  proof (cases "notif_id c = x")
    case True
    have "x \<notin> fst ` set (emitted fs R cs (insert (notif_id c) seen))"
      using keys_emitted[of fs R cs "insert (notif_id c) seen"] True by auto
    then have "filter (\<lambda>p. fst p = x) (emitted fs R cs (insert (notif_id c) seen)) = []"
      by (auto simp: filter_empty_conv)
    then show ?thesis using True by (simp add: firstEmail_def)
  next
    case False
    then show ?thesis using Cons[of "insert (notif_id c) seen"] by (simp add: firstEmail_def)
  qed
qed

lemma merge_effects:
  assumes "consistent s"
  shows "outbox (mergeNotifications fs new R s)
           = outbox s @ emitted fs R new (notif_id ` set (allNotifications s))"
    and "sentEmails (mergeNotifications fs new R s) = sentEmails s"
proof -
  have "sentEmails s \<subseteq> fst ` set (seed (allNotifications s))"
    using assms by (auto simp: consistent_def keys_seed)
  from snd_forEachNew[OF this, of fs R new]
  show "outbox (mergeNotifications fs new R s)
           = outbox s @ emitted fs R new (notif_id ` set (allNotifications s))"
    and "sentEmails (mergeNotifications fs new R s) = sentEmails s"
    by (simp_all add: merge_unfold keys_seed)
qed

lemma consistent_initial: "consistent initial"
  by (simp add: consistent_def initial_def)

lemma consistent_merge:
  assumes "consistent s" shows "consistent (mergeNotifications fs new R s)"
proof -
  let ?e = "emitted fs R new (notif_id ` set (allNotifications s))"
  have k: "fst ` set ?e \<subseteq> notif_id ` set new - notif_id ` set (allNotifications s)"
    by (rule keys_emitted)
  have o: "fst ` set (outbox s) \<subseteq> notif_id ` set (allNotifications s)"
    and d: "distinct (map fst (outbox s))"
    using assms by (simp_all add: consistent_def)
  have "set (map fst (outbox s)) \<inter> set (map fst ?e) = {}"
    using o k by (simp only: set_map) blast
  then have "distinct (map fst (outbox s @ ?e))"
    using d distinct_emitted[of fs R new "notif_id ` set (allNotifications s)"]
    by (simp only: map_append distinct_append simp_thms)
  moreover have "fst ` set (outbox s @ ?e) \<subseteq> notif_id ` set (allNotifications s) \<union> notif_id ` set new"
    using assms k by (auto simp: consistent_def)
  moreover have "sentEmails s \<subseteq> fst ` set (outbox s @ ?e)"
    using assms by (auto simp: consistent_def)
  ultimately show ?thesis
    unfolding consistent_def merge_effects[OF assms] ids_merge by blast
qed

lemma consistent_settled: "consistent s \<Longrightarrow> consistent (sendEmailSettled k ok s)"
  by (auto simp: consistent_def sendEmailSettled_def)

lemma consistent_step: "consistent s \<Longrightarrow> consistent (step fs e s)"
  by (cases e) (simp_all add: consistent_merge consistent_settled)

lemma consistent_run: "consistent s \<Longrightarrow> consistent (run fs evs s)"
  by (induction evs arbitrary: s) (simp_all add: run_Nil run_Cons consistent_step)

lemma requests_merge:
  assumes "consistent s"
  shows "requestsFor x (mergeNotifications fs new R s) = requestsFor x s +
     (if x \<in> notif_id ` set new \<and> x \<notin> notif_id ` set (allNotifications s) \<and> x \<notin> R \<and> fs
         \<and> truthy (firstEmail x new) then 1 else 0)"
  by (simp add: requestsFor_def merge_effects[OF assms] count_emitted)

lemma requests_settled: "requestsFor x (sendEmailSettled k ok s) = requestsFor x s"
  by (simp add: requestsFor_def sendEmailSettled_def)

lemma requests_le_1: "consistent s \<Longrightarrow> requestsFor x s \<le> 1"
proof -
  assume "consistent s"
  then have "distinct (map fst (outbox s))" by (simp add: consistent_def)
  then have "distinct (filter (\<lambda>k. k = x) (map fst (outbox s)))" by (rule distinct_filter)
  moreover have "set (filter (\<lambda>k. k = x) (map fst (outbox s))) \<subseteq> {x}" by auto
  ultimately have "length (filter (\<lambda>k. k = x) (map fst (outbox s))) \<le> card {x}"
    by (metis distinct_card card_mono finite.emptyI finite.insertI)
  then show ?thesis by (simp add: requestsFor_def filter_map comp_def)
qed

lemma requests_known_step:
  assumes "consistent s" "x \<in> notif_id ` set (allNotifications s)"
  shows "requestsFor x (step fs e s) = requestsFor x s"
  using assms by (cases e) (simp_all add: requests_merge requests_settled)

lemma requests_known_run:
  "consistent s \<Longrightarrow> x \<in> notif_id ` set (allNotifications s) \<Longrightarrow> requestsFor x (run fs evs s) = requestsFor x s"
proof (induction evs arbitrary: s)
  case Nil show ?case by (simp add: run_Nil)
next
  case (Cons e evs)
  have "x \<in> notif_id ` set (allNotifications (step fs e s))"
    using Cons.prems(2) ids_step[of s fs e] by auto
  then have "requestsFor x (run fs evs (step fs e s)) = requestsFor x (step fs e s)"
    using Cons.prems(1) by (intro Cons.IH consistent_step)
  then show ?case using Cons.prems by (simp add: run_Cons requests_known_step)
qed

text \<open>
  Claim C2, as the code has it. In a session that starts from the empty state, a
  merge pass requests a mail document for an identity exactly when the identity is
  in the batch, absent from the list before the pass, absent from the read-identity
  set, \<open>firestore\<close> is not null and the first candidate of the batch with that
  identity has a non-empty \<open>recipientEmail\<close>; then it requests one. The settling
  of a write requests none. In every state of the session an identity has at most
  one request, and once an identity is in the list no later event requests one
  for it.
\<close>

theorem C2_at_most_one_request:
  "requestsFor x (mergeNotifications fs B R (run fs evs initial))
     = requestsFor x (run fs evs initial)
       + (if x \<in> notif_id ` set B \<and> x \<notin> notif_id ` set (allNotifications (run fs evs initial))
             \<and> x \<notin> R \<and> fs \<and> truthy (firstEmail x B) then 1 else 0)
   \<and> requestsFor x (sendEmailSettled k ok (run fs evs initial)) = requestsFor x (run fs evs initial)
   \<and> requestsFor x (run fs evs initial) \<le> 1
   \<and> (x \<in> notif_id ` set (allNotifications (run fs evs initial)) \<longrightarrow>
        requestsFor x (run fs evs' (run fs evs initial)) = requestsFor x (run fs evs initial))"
proof -
  have c: "consistent (run fs evs initial)"
    by (rule consistent_run) (rule consistent_initial)
  show ?thesis
    using requests_merge[OF c, of x fs B R] requests_le_1[OF c, of x] requests_known_run[OF c, of x fs evs']
    by (simp add: requests_settled)
qed

text \<open>
  Claim C2 as the specification words it, with no condition on \<open>recipientEmail\<close>,
  does not hold: the candidate \<open>cB\<close> has no email; its identity is in the batch,
  absent from the list and from the read-identity set, and the pass requests nothing.
\<close>

theorem C2_counterexample:
  "notif_id cB \<in> notif_id ` set [cB]
   \<and> notif_id cB \<notin> notif_id ` set (allNotifications initial)
   \<and> notif_id cB \<notin> ({} :: string set)
   \<and> outbox (run True [MergePass [cB] {}] initial) = []"
  by (simp add: run_def initial_def mergeNotifications_def seed_def Let_def sendEmailNotification_def
        email_with cB_def)

lemma sample_requests:
  "requestsFor ''bid-r1'' initial = 0"
  "firstEmail ''bid-r1'' [cA, cB] = Some ''a@b.c''"
  "notif_id ` set [cA, cB] = {''bid-r1'', ''msg-x''}"
  "allNotifications initial = []"
  "notif_id cA = ''bid-r1''" "notif_id cB = ''msg-x''"
  by (simp_all add: requestsFor_def initial_def firstEmail_def cA_def cB_def)

theorem C2_at_most_one_request_witness:
  "requestsFor ''bid-r1'' (mergeNotifications True [cA, cB] {''msg-x''} initial) = 1
   \<and> requestsFor ''bid-r1'' (run True [MergePass [cA, cB] {''msg-x''}] initial) \<le> 1"
  using C2_at_most_one_request[of "''bid-r1''" True "[cA, cB]" "{''msg-x''}" "[]" "''bid-r1''" True "[]"]
    C2_at_most_one_request[of "''bid-r1''" True "[cA, cB]" "{''msg-x''}" "[MergePass [cA, cB] {''msg-x''}]" "''bid-r1''" True "[]"]
  by (simp add: run_Nil sample_requests)

lemma firstEmail_head: "firstEmail (notif_id c) (c # B) = recipientEmail c"
  by (simp add: firstEmail_def)

text \<open>
  Claim C10, as the code has it. For a candidate with no (or an empty)
  \<open>recipientEmail\<close>, \<open>sendEmailNotification\<close> returns the state as it was: nothing
  is requested and the identity is not recorded. A pass whose batch starts with such
  a candidate, and every event after it, leaves the number of requests for its
  identity as it was before the pass. A direct call of \<open>sendEmailNotification\<close>
  afterwards, for the same identity with an email, would request the document;
  \<open>mergeNotifications\<close> does not make that call, the identity being in the list.
\<close>

theorem C10_no_email_no_request:
  assumes "\<not> truthy (recipientEmail c)"
  shows "sendEmailNotification fs (withIsRead False c) s = s
    \<and> requestsFor (notif_id c) (run fs evs' (mergeNotifications fs (c # B) R (run fs evs initial)))
        = requestsFor (notif_id c) (run fs evs initial)
    \<and> (fs \<and> truthy (recipientEmail n) \<and> notif_id n = notif_id c \<and> notif_id c \<notin> sentEmails s \<longrightarrow>
         outbox (sendEmailNotification fs n (sendEmailNotification fs (withIsRead False c) s))
           = outbox s @ [(notif_id n, mailData n)])"
proof (intro conjI impI)
  show 1: "sendEmailNotification fs (withIsRead False c) s = s"
    using assms by (simp add: sendEmailNotification_def email_with)
  have c0: "consistent (run fs evs initial)"
    by (rule consistent_run) (rule consistent_initial)
  let ?s1 = "mergeNotifications fs (c # B) R (run fs evs initial)"
  have c1: "consistent ?s1" using c0 by (rule consistent_merge)
  have "notif_id c \<in> notif_id ` set (allNotifications ?s1)" by (simp add: ids_merge)
  with c1 have "requestsFor (notif_id c) (run fs evs' ?s1) = requestsFor (notif_id c) ?s1"
    by (rule requests_known_run)
  also have "\<dots> = requestsFor (notif_id c) (run fs evs initial)"
    using assms by (simp add: requests_merge[OF c0] firstEmail_head)
  finally show "requestsFor (notif_id c) (run fs evs' ?s1) = requestsFor (notif_id c) (run fs evs initial)" .
next
  assume "fs \<and> truthy (recipientEmail n) \<and> notif_id n = notif_id c \<and> notif_id c \<notin> sentEmails s"
  then show "outbox (sendEmailNotification fs n (sendEmailNotification fs (withIsRead False c) s))
           = outbox s @ [(notif_id n, mailData n)]"
    using assms by (simp add: sendEmailNotification_def email_with)
qed

text \<open>
  Claim C10 ends on a later candidate of the same identity, carrying an email, that
  can still be delivered. It is not: after the pass with \<open>cB\<close>, the pass with
  \<open>cB_mail\<close> (same identity, with an email, not read) requests nothing.
\<close>

theorem C10_counterexample:
  "truthy (recipientEmail cB_mail) \<and> notif_id cB_mail = notif_id cB
   \<and> outbox (run True [MergePass [cB] {}, MergePass [cB_mail] {}] initial) = []"
  by (simp add: run_def initial_def mergeNotifications_def seed_def Let_def sendEmailNotification_def
        email_with cB_def cB_mail_def map_values_def annotate_def sortDesc_def notif_id_withIsRead notif_id_omit)

theorem C10_no_email_no_request_witness:
  "\<not> truthy (recipientEmail cB)
   \<and> sendEmailNotification True (withIsRead False cB) initial = initial
   \<and> requestsFor (notif_id cB) (run True [MergePass [cB_mail] {}] (mergeNotifications True [cB] {} initial)) = 0
   \<and> outbox (sendEmailNotification True (withIsRead False cB_mail)
        (sendEmailNotification True (withIsRead False cB) initial))
       = [(notif_id cB_mail, mailData (withIsRead False cB_mail))]"
proof -
  have h: "\<not> truthy (recipientEmail cB)" by (simp add: cB_def)
  have a: "truthy (recipientEmail (withIsRead False cB_mail))"
    "notif_id (withIsRead False cB_mail) = notif_id cB" "notif_id cB \<notin> sentEmails initial"
    "outbox initial = []" "requestsFor (notif_id cB) initial = 0" "notif_id cB_mail = notif_id cB"
    by (simp_all add: email_with notif_id_withIsRead cB_mail_def initial_def requestsFor_def)
  note t = C10_no_email_no_request[OF h, of True initial "[MergePass [cB_mail] {}]" "[]" "{}" "[]" "withIsRead False cB_mail"]
  from t have 1: "sendEmailNotification True (withIsRead False cB) initial = initial" by blast
  from t have 2: "requestsFor (notif_id cB) (run True [MergePass [cB_mail] {}] (mergeNotifications True [cB] {} initial)) = 0"
    by (simp add: run_Nil a)
  from t a(1,2,3) have "outbox (sendEmailNotification True (withIsRead False cB_mail)
        (sendEmailNotification True (withIsRead False cB) initial))
       = outbox initial @ [(notif_id (withIsRead False cB_mail), mailData (withIsRead False cB_mail))]"
    by blast
  then have 3: "outbox (sendEmailNotification True (withIsRead False cB_mail)
        (sendEmailNotification True (withIsRead False cB) initial))
       = [(notif_id cB_mail, mailData (withIsRead False cB_mail))]"
    by (simp only: a(4) notif_id_withIsRead append_Nil)
  from h 1 2 3 show ?thesis by blast
qed

subsection \<open>Candidate producers\<close>

lemma type_whenPositive:
  "(\<And>n. notif_type (f n) \<noteq> ty) \<Longrightarrow> filter (\<lambda>c. notif_type c = ty) (whenPositive x f) = []"
  by (cases x) auto

lemma gig_candidate_by_lookup:
  assumes "role u \<noteq> ''admin''" and "unreadGigsCount u = Some 1"
  shows "filter (\<lambda>c. notif_type c = gig_hired) (userDocCandidates uid u (GigFound d) now)
      = [\<lparr> notif_id = ''gig-'' @ tmpl (data_id (doc_data d)), notif_type = gig_hired,
           message = ''You've been hired for '' @ dq @ title (doc_data d) @ dq @ ''!'',
           link = ''/requests/'' @ tmpl (data_id (doc_data d)), timestamp = now,
           recipientEmail = email u, recipientName = name u \<rparr>]"
    and "filter (\<lambda>c. notif_type c = gig_hired) (userDocCandidates uid u GigEmpty now)
      = [\<lparr> notif_id = ''gigs-'' @ uid, notif_type = gig_hired, message = ''You have 1 new gig!'',
           link = ''/requests'', timestamp = now,
           recipientEmail = email u, recipientName = name u \<rparr>]"
    and "filter (\<lambda>c. notif_type c = gig_hired) (userDocCandidates uid u GigFailed now)
      = [\<lparr> notif_id = ''gigs-'' @ uid, notif_type = gig_hired, message = ''You have 1 new gig!'',
           link = ''/requests'', timestamp = now,
           recipientEmail = email u, recipientName = name u \<rparr>]"
  using assms by (simp_all add: userDocCandidates_def gigsFallback_def type_whenPositive Let_def)

text \<open>
  Claim C6 on the code. For a user who is not an admin and whose \<open>unreadGigsCount\<close>
  is 1, the listener pushes exactly one \<open>gig_hired\<close> candidate. When the lookup is
  empty or fails, its identity is \<open>gigs-<uid>\<close> and its message is
  \<open>You have 1 new gig!\<close>. When the lookup finds a document, the identity is \<open>gig-\<close>
  followed by the field \<open>id\<close> of its data, whatever its \<open>doc.id\<close>: for a
  document \<open>p1\<close> titled \<open>Sunset Shoot\<close> it is \<open>gig-p1\<close> when the data holds
  \<open>id = p1\<close>, and \<open>gig-undefined\<close>, with the link \<open>/requests/undefined\<close>, when the
  data holds no \<open>id\<close>, although the way of the other producer,
  \<open>{ id: doc.id, ...doc.data() }\<close>, gives \<open>p1\<close> for both. No such identity equals
  \<open>gigs-<uid>\<close>.
\<close>

theorem C6_gig_id_from_data_only:
  assumes "role u \<noteq> ''admin''" and "unreadGigsCount u = Some 1" and "title (doc_data d) = ''Sunset Shoot''"
  shows "map (\<lambda>c. (notif_id c, message c, link c))
           (filter (\<lambda>c. notif_type c = gig_hired) (userDocCandidates uid u (GigFound d) now))
      = [(''gig-'' @ tmpl (data_id (doc_data d)),
          ''You've been hired for '' @ dq @ ''Sunset Shoot'' @ dq @ ''!'',
          ''/requests/'' @ tmpl (data_id (doc_data d)))]
    \<and> (data_id (doc_data d) = Some ''p1'' \<longrightarrow>
         map notif_id (filter (\<lambda>c. notif_type c = gig_hired) (userDocCandidates uid u (GigFound d) now))
           = [''gig-p1''])
    \<and> (data_id (doc_data d) = None \<longrightarrow>
         map (\<lambda>c. (notif_id c, link c))
           (filter (\<lambda>c. notif_type c = gig_hired) (userDocCandidates uid u (GigFound d) now))
           = [(''gig-undefined'', ''/requests/undefined'')])
    \<and> map (\<lambda>c. (notif_id c, message c))
           (filter (\<lambda>c. notif_type c = gig_hired) (userDocCandidates uid u GigEmpty now))
      = [(''gigs-'' @ uid, ''You have 1 new gig!'')]
    \<and> map (\<lambda>c. (notif_id c, message c))
           (filter (\<lambda>c. notif_type c = gig_hired) (userDocCandidates uid u GigFailed now))
      = [(''gigs-'' @ uid, ''You have 1 new gig!'')]
    \<and> ''gig-'' @ tmpl (data_id (doc_data d)) \<noteq> ''gigs-'' @ uid"
proof -
  have ne: "''gig-'' @ x \<noteq> ''gigs-'' @ uid" for x :: string
    by (cases x) auto
  show ?thesis
    using assms(3) ne by (simp add: gig_candidate_by_lookup[OF assms(1,2)])
qed

theorem C6_gig_id_from_data_only_witness:
  "role u0 \<noteq> ''admin'' \<and> unreadGigsCount u0 = Some 1
   \<and> doc_id gigDoc0 = ''p1'' \<and> request_id gigDoc0 = ''p1'' \<and> title (doc_data gigDoc0) = ''Sunset Shoot''
   \<and> data_id (doc_data gigDoc0) = None
   \<and> map (\<lambda>c. (notif_id c, link c))
         (filter (\<lambda>c. notif_type c = gig_hired) (userDocCandidates ''u1'' u0 (GigFound gigDoc0) t0))
       = [(''gig-undefined'', ''/requests/undefined'')]
   \<and> doc_id gigDoc1 = ''p1'' \<and> data_id (doc_data gigDoc1) = Some ''p1''
   \<and> map notif_id (filter (\<lambda>c. notif_type c = gig_hired) (userDocCandidates ''u1'' u0 (GigFound gigDoc1) t0))
       = [''gig-p1'']
   \<and> map notif_id (userDocCandidates ''u1'' u0 GigEmpty t0) = [''gigs-u1'', ''review-multi-u1'']"
proof -
  have h: "role u0 \<noteq> ''admin''" "unreadGigsCount u0 = Some 1"
    by (simp_all add: u0_def)
  have t: "title (doc_data gigDoc0) = ''Sunset Shoot''" "title (doc_data gigDoc1) = ''Sunset Shoot''"
    by (simp_all add: gigDoc0_def gigDoc1_def r0_def)
  have f: "doc_id gigDoc0 = ''p1''" "request_id gigDoc0 = ''p1''" "data_id (doc_data gigDoc0) = None"
    "doc_id gigDoc1 = ''p1''" "data_id (doc_data gigDoc1) = Some ''p1''"
    by (simp_all add: gigDoc0_def gigDoc1_def r0_def request_id_def)
  have e: "map notif_id (userDocCandidates ''u1'' u0 GigEmpty t0) = [''gigs-u1'', ''review-multi-u1'']"
    by (simp add: userDocCandidates_def gigsFallback_def u0_def)
  from C6_gig_id_from_data_only[OF h t(1), of "''u1''" t0] f(3)
  have 0: "map (\<lambda>c. (notif_id c, link c))
         (filter (\<lambda>c. notif_type c = gig_hired) (userDocCandidates ''u1'' u0 (GigFound gigDoc0) t0))
       = [(''gig-undefined'', ''/requests/undefined'')]"
    by blast
  from C6_gig_id_from_data_only[OF h t(2), of "''u1''" t0] f(5)
  have 1: "map notif_id (filter (\<lambda>c. notif_type c = gig_hired) (userDocCandidates ''u1'' u0 (GigFound gigDoc1) t0))
       = [''gig-p1'']"
    by blast
  from h t(1) f e 0 1 show ?thesis by blast
qed

lemma numString_2: "numString 2 = ''2''"
  by (simp add: numString_def string_of_nat.simps[of 2] digit_def)

lemma id_requestCandidate: "notif_id (requestCandidate ud i ty m l t) = i"
  and type_requestCandidate: "notif_type (requestCandidate ud i ty m l t) = ty"
  by (simp_all add: requestCandidate_def)

lemma bid_filter:
  "filter (\<lambda>c. notif_type c = new_bid) (requestNotifications uid userData now d)
     = (if userId (doc_data d) = uid then
          whenPositive (unreadBidsCount (doc_data d)) (\<lambda>n.
            requestCandidate userData (''bid-'' @ request_id d) new_bid
              (numString n @ '' new bid(s) on '' @ dq @ title (doc_data d) @ dq)
              (''/requests/'' @ request_id d) now)
        else [])"
  by (cases "unreadBidsCount (doc_data d)")
     (auto simp: requestNotifications_def Let_def type_requestCandidate split: option.splits)

lemma bid_id_filter:
  "filter (\<lambda>c. notif_id c = ''bid-'' @ x) (requestNotifications uid userData now d)
     = (if request_id d = x then filter (\<lambda>c. notif_type c = new_bid) (requestNotifications uid userData now d) else [])"
  unfolding bid_filter
  by (cases "unreadBidsCount (doc_data d)")
     (auto simp: requestNotifications_def Let_def id_requestCandidate split: option.splits)

lemma bid_id_concat:
  "filter (\<lambda>c. notif_id c = ''bid-'' @ x) (projectCandidates uid userData now docs)
     = concat (map (\<lambda>d. filter (\<lambda>c. notif_type c = new_bid) (requestNotifications uid userData now d))
         (filter (\<lambda>d. request_id d = x) docs))"
proof -
  define P where "P = (\<lambda>c::Candidate. notif_id c = ''bid-'' @ x)"
  define g where "g = (\<lambda>d. filter (\<lambda>c. notif_type c = new_bid) (requestNotifications uid userData now d))"
  have one: "filter P (requestNotifications uid userData now d) = (if request_id d = x then g d else [])" for d
    unfolding P_def g_def by (rule bid_id_filter)
  have "filter P (concat (map (requestNotifications uid userData now) docs))
      = concat (map g (filter (\<lambda>d. request_id d = x) docs))"
    by (induction docs) (simp_all add: one)
  then show ?thesis unfolding P_def g_def projectCandidates_def .
qed

text \<open>
  Claim C7. For a document whose request identity is \<open>r1\<close>, owned by the viewing
  user, with \<open>unreadBidsCount\<close> 2, the producer pushes exactly one \<open>new_bid\<close>
  candidate: identity \<open>bid-r1\<close>, message \<open>2 new bid(s) on "<title>"\<close>, link
  \<open>/requests/r1\<close>. In a snapshot where it is the only document of that request, it
  is the only candidate with the identity \<open>bid-r1\<close>.
\<close>

theorem C7_one_bid_candidate:
  assumes "request_id d = ''r1''" and "userId (doc_data d) = uid" and "unreadBidsCount (doc_data d) = Some 2"
  shows "filter (\<lambda>c. notif_type c = new_bid) (requestNotifications uid userData now d)
      = [\<lparr> notif_id = ''bid-r1'', notif_type = new_bid,
           message = ''2 new bid(s) on '' @ dq @ title (doc_data d) @ dq,
           link = ''/requests/r1'', timestamp = now,
           recipientEmail = Option.bind userData email, recipientName = Option.bind userData name \<rparr>]
    \<and> (filter (\<lambda>e. request_id e = ''r1'') docs = [d] \<longrightarrow>
         filter (\<lambda>c. notif_id c = ''bid-r1'') (projectCandidates uid userData now docs)
         = [\<lparr> notif_id = ''bid-r1'', notif_type = new_bid,
              message = ''2 new bid(s) on '' @ dq @ title (doc_data d) @ dq,
              link = ''/requests/r1'', timestamp = now,
              recipientEmail = Option.bind userData email, recipientName = Option.bind userData name \<rparr>])"
proof -
  have b: "filter (\<lambda>c. notif_type c = new_bid) (requestNotifications uid userData now d)
      = [\<lparr> notif_id = ''bid-r1'', notif_type = new_bid,
           message = ''2 new bid(s) on '' @ dq @ title (doc_data d) @ dq,
           link = ''/requests/r1'', timestamp = now,
           recipientEmail = Option.bind userData email, recipientName = Option.bind userData name \<rparr>]"
    using assms by (simp add: bid_filter requestCandidate_def numString_2)
  have "filter (\<lambda>c. notif_id c = ''bid-'' @ ''r1'') (projectCandidates uid userData now docs)
      = filter (\<lambda>c. notif_type c = new_bid) (requestNotifications uid userData now d)"
    if "filter (\<lambda>e. request_id e = ''r1'') docs = [d]"
    using that by (simp only: bid_id_concat) simp
  with b show ?thesis by simp
qed

theorem C7_one_bid_candidate_witness:
  "request_id d0 = ''r1'' \<and> userId (doc_data d0) = ''u1'' \<and> unreadBidsCount (doc_data d0) = Some 2
   \<and> map notif_id (requestNotifications ''u1'' (Some u0) t0 d0) = [''bid-r1'', ''delivery-r1'']
   \<and> filter (\<lambda>c. notif_id c = ''bid-r1'') (projectCandidates ''u1'' (Some u0) t0 [d0])
       = [\<lparr> notif_id = ''bid-r1'', notif_type = new_bid,
            message = ''2 new bid(s) on '' @ dq @ ''Wedding'' @ dq,
            link = ''/requests/r1'', timestamp = t0,
            recipientEmail = Some ''ann@example.org'', recipientName = Some ''Ann'' \<rparr>]"
proof -
  have h: "request_id d0 = ''r1''" "userId (doc_data d0) = ''u1''" "unreadBidsCount (doc_data d0) = Some 2"
    by (simp_all add: d0_def request_id_def)
  have f: "filter (\<lambda>e. request_id e = ''r1'') [d0] = [d0]" by (simp add: h)
  have e: "map notif_id (requestNotifications ''u1'' (Some u0) t0 d0) = [''bid-r1'', ''delivery-r1'']"
    by (simp add: requestNotifications_def Let_def h d0_def request_id_def id_requestCandidate)
  have v: "title (doc_data d0) = ''Wedding''" "Option.bind (Some u0) email = Some ''ann@example.org''"
    "Option.bind (Some u0) name = Some ''Ann''"
    by (simp_all add: d0_def u0_def)
  from C7_one_bid_candidate[OF h, of "Some u0" t0 "[d0]"] f
  have "filter (\<lambda>c. notif_id c = ''bid-r1'') (projectCandidates ''u1'' (Some u0) t0 [d0])
       = [\<lparr> notif_id = ''bid-r1'', notif_type = new_bid,
            message = ''2 new bid(s) on '' @ dq @ title (doc_data d0) @ dq,
            link = ''/requests/r1'', timestamp = t0,
            recipientEmail = Option.bind (Some u0) email, recipientName = Option.bind (Some u0) name \<rparr>]"
    by blast
  with h e show ?thesis by (simp only: v simp_thms)
qed

subsection \<open>Marking all as read\<close>

text \<open>
  Claim C8, as the code has it. \<open>handleMarkAsRead\<close> returns at once, with no write,
  when there is no signed-in user or no \<open>firestore\<close>. With both, it issues no write
  when the list has no unread entry, and otherwise exactly one write, an
  \<open>arrayUnion\<close> of the identities of the unread entries into the user's
  \<open>readNotificationIds\<close>; applied to a read state, the write adds exactly those
  identities. There is never more than one write.
\<close>

theorem C8_mark_all_read:
  "handleMarkAsRead user fs ns
     = (case user of
          None \<Rightarrow> []
        | Some uid \<Rightarrow>
            if fs \<and> filter (\<lambda>n. \<not> isRead n) ns \<noteq> []
            then [ArrayUnionReadIds uid (map notif_id (filter (\<lambda>n. \<not> isRead n) ns))] else [])
   \<and> handleMarkAsRead (Some uid) True ns
     = (if filter (\<lambda>n. \<not> isRead n) ns = [] then []
        else [ArrayUnionReadIds uid (map notif_id (filter (\<lambda>n. \<not> isRead n) ns))])
   \<and> handleMarkAsRead None fs ns = []
   \<and> handleMarkAsRead user False ns = []
   \<and> (filter (\<lambda>n. \<not> isRead n) ns = [] \<longrightarrow> handleMarkAsRead user fs ns = [])
   \<and> length (handleMarkAsRead user fs ns) \<le> 1
   \<and> fold applyWrite (handleMarkAsRead (Some uid) True ns) readState
       = readState \<union> notif_id ` {n \<in> set ns. \<not> isRead n}"
proof -
  have 0: "handleMarkAsRead user fs ns
     = (case user of
          None \<Rightarrow> []
        | Some uid \<Rightarrow>
            if fs \<and> filter (\<lambda>n. \<not> isRead n) ns \<noteq> []
            then [ArrayUnionReadIds uid (map notif_id (filter (\<lambda>n. \<not> isRead n) ns))] else [])"
    by (cases ns) (auto simp: handleMarkAsRead_def Let_def split: option.splits)
  have 1: "handleMarkAsRead (Some uid) True ns
     = (if filter (\<lambda>n. \<not> isRead n) ns = [] then []
        else [ArrayUnionReadIds uid (map notif_id (filter (\<lambda>n. \<not> isRead n) ns))])"
    by (cases ns) (simp_all add: handleMarkAsRead_def Let_def)
  have 2: "filter (\<lambda>n. \<not> isRead n) ns = [] \<longrightarrow> handleMarkAsRead user fs ns = []"
    by (simp add: handleMarkAsRead_def Let_def split: option.splits)
  have 3: "length (handleMarkAsRead user fs ns) \<le> 1"
    by (simp add: handleMarkAsRead_def Let_def split: option.splits)
  have 5: "handleMarkAsRead None fs ns = []" "handleMarkAsRead user False ns = []"
    by (simp_all add: handleMarkAsRead_def split: option.splits)
  have 4: "fold applyWrite (handleMarkAsRead (Some uid) True ns) readState
       = readState \<union> notif_id ` {n \<in> set ns. \<not> isRead n}"
  proof (cases "filter (\<lambda>n. \<not> isRead n) ns = []")
    case True
    then have "{n \<in> set ns. \<not> isRead n} = {}" by (auto simp: filter_empty_conv)
    then have "readState \<union> notif_id ` {n \<in> set ns. \<not> isRead n} = readState" by (simp only: image_empty Un_empty_right)
    moreover have "fold applyWrite (handleMarkAsRead (Some uid) True ns) readState = readState"
      using True by (simp add: 1)
    ultimately show ?thesis by (rule ssubst)
  next
    case False
    have "set (filter (\<lambda>n. \<not> isRead n) ns) = {n \<in> set ns. \<not> isRead n}" by auto
    with False show ?thesis by (simp add: 1 del: set_filter)
  qed
  from 0 1 2 3 4 5 show ?thesis by blast
qed

text \<open>
  Claim C8 as the specification words it, one write whenever an entry is unread,
  does not hold: with an unread entry in the list, \<open>handleMarkAsRead\<close> issues no
  write when no user is signed in, and none when \<open>firestore\<close> is missing.
\<close>

theorem C8_counterexample:
  "filter (\<lambda>n. \<not> isRead n) [withIsRead False cA] \<noteq> []
   \<and> handleMarkAsRead None True [withIsRead False cA] = []
   \<and> handleMarkAsRead (Some ''u1'') False [withIsRead False cA] = []"
  by (simp add: handleMarkAsRead_def isRead_withIsRead)

lemma sample_unread_ids:
  "map notif_id (filter (\<lambda>n. \<not> isRead n) [withIsRead True cB, withIsRead False cA]) = [''bid-r1'']"
  "filter (\<lambda>n. \<not> isRead n) [withIsRead True cB] = []"
  by (simp_all add: isRead_withIsRead notif_id_withIsRead cA_def)

theorem C8_mark_all_read_witness:
  "handleMarkAsRead (Some ''u1'') True [withIsRead True cB, withIsRead False cA]
     = [ArrayUnionReadIds ''u1'' [''bid-r1'']]
   \<and> handleMarkAsRead (Some ''u1'') True [withIsRead True cB] = []
   \<and> handleMarkAsRead None True [withIsRead True cB, withIsRead False cA] = []"
proof -
  note a = C8_mark_all_read[of "Some ''u1''" True "[withIsRead True cB, withIsRead False cA]" "''u1''" "{}"]
  note b = C8_mark_all_read[of "Some ''u1''" True "[withIsRead True cB]" "''u1''" "{}"]
  have n: "filter (\<lambda>n. \<not> isRead n) [withIsRead True cB, withIsRead False cA] \<noteq> []"
    by (simp add: isRead_withIsRead)
  from a have "handleMarkAsRead (Some ''u1'') True [withIsRead True cB, withIsRead False cA]
     = (if filter (\<lambda>n. \<not> isRead n) [withIsRead True cB, withIsRead False cA] = [] then []
        else [ArrayUnionReadIds ''u1''
               (map notif_id (filter (\<lambda>n. \<not> isRead n) [withIsRead True cB, withIsRead False cA]))])"
    by blast
  with n have 1: "handleMarkAsRead (Some ''u1'') True [withIsRead True cB, withIsRead False cA]
     = [ArrayUnionReadIds ''u1'' [''bid-r1'']]"
    by (simp only: sample_unread_ids if_False)
  from b sample_unread_ids(2)
  have 2: "handleMarkAsRead (Some ''u1'') True [withIsRead True cB] = []" by blast
  from a have 3: "handleMarkAsRead None True [withIsRead True cB, withIsRead False cA] = []" by blast
  from 1 2 3 show ?thesis by blast
qed

end
